theory Spec2Isabelle
  imports Complex_Main "HOL-Library.Sublist"
begin

section \<open>Python values and built-ins used by the streaming pipeline\<close>

text \<open>
  The development embeds the streaming decode pipeline of \<^verbatim>\<open>Untitled67.ipynb\<close>:
  the class \<^verbatim>\<open>CharTokenizer\<close> and the class \<^verbatim>\<open>RealTimeStreamer\<close>.
  Audio samples, log-probabilities and timestamps are floating-point numbers in the
  notebook; here every such number is the rational it denotes. The arithmetic of the
  energy gate is numpy's, and the streamer carries it as the operations \<open>np\<close>, so
  that the rounding of the gate is the rounding of the operations given. Timestamps are
  the exact quotients. Text is ASCII text, a list of characters; loading and resampling
  an audio file are outside the model, and every method takes the samples of the waveform.
\<close>

type_synonym sample = rat

datatype error = ValueError | IndexError | KeyError | ZeroDivisionError | ModelError

text \<open>
  The objects that travel through \<^verbatim>\<open>queue.Queue\<close> and come back from
  \<^verbatim>\<open>get_latest_transcription\<close>: a \<^verbatim>\<open>str\<close>, a \<^verbatim>\<open>float\<close>, a tuple, or
  \<^verbatim>\<open>None\<close>.
\<close>

datatype pyval = Str string | Float rat | Tuple "pyval list" | PyNone

text \<open>
  The operations of numpy that the energy gate uses on a chunk of 32-bit floats:
  \<^verbatim>\<open>x ** 2\<close> on one element, \<^verbatim>\<open>np.sum\<close> of an array, the division of the sum by
  the length, and the comparison of the quotient with a Python float. Their rounding, the
  order in which \<^verbatim>\<open>np.sum\<close> adds, and the precision in which the scalar division and
  comparison are carried out belong to numpy and its version, not to the notebook.
\<close>

record numpy =
  np_square :: "sample \<Rightarrow> sample"
  np_sum :: "sample list \<Rightarrow> sample"
  np_divide :: "sample \<Rightarrow> int \<Rightarrow> sample"
  np_greater :: "sample \<Rightarrow> rat \<Rightarrow> bool"

text \<open>\<^verbatim>\<open>str.upper()\<close> on ASCII letters; every other character is left as it is.\<close>

definition upper_char :: "char \<Rightarrow> char" where
  "upper_char c =
     (let n = (of_char c :: nat) in if 97 \<le> n \<and> n \<le> 122 then char_of (n - 32) else c)"

definition py_upper :: "string \<Rightarrow> string" where
  "py_upper text = map upper_char text"

text \<open>
  \<^verbatim>\<open>str.isspace()\<close> for one character: tab, line feed, vertical tab, form feed,
  carriage return, the four separators 0x1c to 0x1f, space, 0x85 and 0xa0.
\<close>

definition py_isspace :: "char \<Rightarrow> bool" where
  "py_isspace c =
     (let n = (of_char c :: nat) in
        (9 \<le> n \<and> n \<le> 13) \<or> (28 \<le> n \<and> n \<le> 32) \<or> n = 133 \<or> n = 160)"

definition py_strip :: "string \<Rightarrow> string" where
  "py_strip text = rev (dropWhile py_isspace (rev (dropWhile py_isspace text)))"

text \<open>\<^verbatim>\<open>enumerate(xs)\<close> and a dict comprehension over pairs (a later key overwrites).\<close>

definition py_enumerate :: "'a list \<Rightarrow> (int \<times> 'a) list" where
  "py_enumerate xs = zip (map int [0..<length xs]) xs"

definition dict_of :: "('k \<times> 'v) list \<Rightarrow> ('k \<rightharpoonup> 'v)" where
  "dict_of kvs = fold (\<lambda>(k, v) m. m(k \<mapsto> v)) kvs Map.empty"

section \<open>CharTokenizer\<close>

text \<open>
  \<^verbatim>\<open>
  class CharTokenizer:
      def __init__(self):
          self.chars = " ABCDEFGHIJKLMNOPQRSTUVWXYZ'"
          self.char_to_idx = {char: idx for idx, char in enumerate(self.chars)}
          self.idx_to_char = {idx: char for idx, char in enumerate(self.chars)}
          self.blank_idx = 0
          self.vocab_size = len(self.chars)
  \<close>
\<close>

record CharTokenizer =
  chars :: string
  char_to_idx :: "char \<rightharpoonup> int"
  idx_to_char :: "int \<rightharpoonup> char"
  blank_idx :: int
  vocab_size :: int

definition apostrophe :: char where
  "apostrophe = CHR 0x27"

definition vocabulary :: string where
  "vocabulary = '' ABCDEFGHIJKLMNOPQRSTUVWXYZ'' @ [apostrophe]"

definition CharTokenizer_init :: CharTokenizer where
  "CharTokenizer_init =
     \<lparr> chars = vocabulary,
       char_to_idx = dict_of (map (\<lambda>(idx, char). (char, idx)) (py_enumerate vocabulary)),
       idx_to_char = dict_of (py_enumerate vocabulary),
       blank_idx = 0,
       vocab_size = int (length vocabulary) \<rparr>"

text \<open>
  \<^verbatim>\<open>
  def encode(self, text):
      text = text.upper()
      return [self.char_to_idx.get(char, self.char_to_idx[' ']) for char in text]
  \<close>
  The default \<^verbatim>\<open>self.char_to_idx[' ']\<close> is evaluated for every character of the
  text, and raises \<^verbatim>\<open>KeyError\<close> when the table has no space.
\<close>

definition encode :: "CharTokenizer \<Rightarrow> string \<Rightarrow> error + int list" where
  "encode tok text =
     (let text = py_upper text in
      if text = [] then Inr []
      else case char_to_idx tok (CHR '' '') of
             None \<Rightarrow> Inl KeyError
           | Some sp \<Rightarrow>
               Inr (map (\<lambda>char. case char_to_idx tok char of Some idx \<Rightarrow> idx | None \<Rightarrow> sp) text))"

text \<open>
  \<^verbatim>\<open>
  def decode(self, indices):
      chars = [self.idx_to_char.get(idx, '') for idx in indices if idx != self.blank_idx]
      return ''.join(chars).strip()
  \<close>
\<close>

definition decode :: "CharTokenizer \<Rightarrow> int list \<Rightarrow> string" where
  "decode tok indices =
     py_strip (concat (map (\<lambda>idx. case idx_to_char tok idx of Some c \<Rightarrow> [c] | None \<Rightarrow> [])
                           (filter (\<lambda>idx. idx \<noteq> blank_idx tok) indices)))"

text \<open>The composition \<^verbatim>\<open>decode(encode(text))\<close>; an exception of \<^verbatim>\<open>encode\<close> propagates.\<close>

definition decode_encode :: "CharTokenizer \<Rightarrow> string \<Rightarrow> error + string" where
  "decode_encode tok text =
     (case encode tok text of Inl e \<Rightarrow> Inl e | Inr indices \<Rightarrow> Inr (decode tok indices))"

section \<open>Ranges, slices and argmax\<close>

text \<open>
  \<^verbatim>\<open>range(start, stop, step)\<close>: a zero step raises \<^verbatim>\<open>ValueError\<close>, a positive
  step counts up while the value is below \<^verbatim>\<open>stop\<close>, a negative step counts down while
  it is above.
\<close>

function range_up :: "int \<Rightarrow> int \<Rightarrow> int \<Rightarrow> int list" where
  "range_up i stop step = (if 0 < step \<and> i < stop then i # range_up (i + step) stop step else [])"
  by pat_completeness auto
termination
  by (relation "measure (\<lambda>(i, stop, step). nat (stop - i))") auto

function range_down :: "int \<Rightarrow> int \<Rightarrow> int \<Rightarrow> int list" where
  "range_down i stop step =
     (if step < 0 \<and> stop < i then i # range_down (i + step) stop step else [])"
  by pat_completeness auto
termination
  by (relation "measure (\<lambda>(i, stop, step). nat (i - stop))") auto

declare range_up.simps [simp del] range_down.simps [simp del]

definition py_range :: "int \<Rightarrow> int \<Rightarrow> int \<Rightarrow> error + int list" where
  "py_range start stop step =
     (if step = 0 then Inl ValueError
      else if 0 < step then Inr (range_up start stop step)
      else Inr (range_down start stop step))"

text \<open>
  \<^verbatim>\<open>xs[a:b]\<close>: a negative bound counts from the end, and both bounds are clamped to
  the sequence; the slice is empty when the bounds cross.
\<close>

definition slice_index :: "nat \<Rightarrow> int \<Rightarrow> nat" where
  "slice_index n k = (if k < 0 then nat (max 0 (int n + k)) else min n (nat k))"

definition py_slice :: "'a list \<Rightarrow> int \<Rightarrow> int \<Rightarrow> 'a list" where
  "py_slice xs a b =
     (let lo = slice_index (length xs) a; hi = slice_index (length xs) b
      in take (hi - lo) (drop lo xs))"

text \<open>
  \<^verbatim>\<open>torch.argmax(log_probs, dim=-1)\<close> on one frame: the index of the first maximal
  value; a frame with no entries cannot be reduced and raises. \<open>argmax_rows\<close> is the
  reduction of every frame of the matrix of batch element 0.
\<close>

fun argmax_from :: "sample \<Rightarrow> int \<Rightarrow> int \<Rightarrow> sample list \<Rightarrow> int" where
  "argmax_from best best_idx idx [] = best_idx"
| "argmax_from best best_idx idx (x # xs) =
     (if best < x then argmax_from x idx (idx + 1) xs
      else argmax_from best best_idx (idx + 1) xs)"

definition argmax :: "sample list \<Rightarrow> error + int" where
  "argmax row = (case row of [] \<Rightarrow> Inl IndexError | x # xs \<Rightarrow> Inr (argmax_from x 0 1 xs))"

fun argmax_rows :: "sample list list \<Rightarrow> error + int list" where
  "argmax_rows [] = Inr []"
| "argmax_rows (row # rows) =
     (case argmax row of
        Inl e \<Rightarrow> Inl e
      | Inr k \<Rightarrow> (case argmax_rows rows of Inl e \<Rightarrow> Inl e | Inr ks \<Rightarrow> Inr (k # ks)))"

section \<open>RealTimeStreamer\<close>

text \<open>
  \<^verbatim>\<open>
  class RealTimeStreamer:
      def __init__(self, model, device='cuda', chunk_duration=0.32, overlap=0.16):
          self.model = model.to(device)
          self.chunk_duration = chunk_duration
          self.overlap = overlap
          self.sample_rate = 16000
          self.chunk_size = int(chunk_duration * self.sample_rate)
          self.overlap_size = int(overlap * self.sample_rate)
          self.tokenizer = CharTokenizer()
          self.result_queue = queue.Queue()
          self.is_streaming = False
  \<close>
  The acoustic model is an external collaborator: a function from a chunk to the matrix of
  per-frame log-probabilities, or to an exception. The field \<open>np\<close> holds the numpy
  operations of the module. The field \<open>model_calls\<close> is not a
  field of the class: it records, in call order, the chunks handed to \<^verbatim>\<open>self.model\<close>,
  so that "the model is not invoked" can be stated. The buffers \<^verbatim>\<open>audio_buffer\<close>,
  \<^verbatim>\<open>text_buffer\<close> and \<^verbatim>\<open>audio_queue\<close> are never read or written by a method and
  are left out.
\<close>

record RealTimeStreamer =
  np :: numpy
  model :: "sample list \<Rightarrow> error + sample list list"
  chunk_duration :: rat
  overlap :: rat
  sample_rate :: int
  chunk_size :: int
  overlap_size :: int
  tokenizer :: CharTokenizer
  result_queue :: "pyval list"
  is_streaming :: bool
  model_calls :: "sample list list"

text \<open>\<^verbatim>\<open>int(x)\<close> truncates towards zero.\<close>

definition py_int :: "rat \<Rightarrow> int" where
  "py_int x = (if 0 \<le> x then \<lfloor>x\<rfloor> else \<lceil>x\<rceil>)"

definition RealTimeStreamer_init ::
  "numpy \<Rightarrow> (sample list \<Rightarrow> error + sample list list) \<Rightarrow> rat \<Rightarrow> rat \<Rightarrow> RealTimeStreamer" where
  "RealTimeStreamer_init ops m chunk_dur ovl =
     \<lparr> np = ops,
       model = m,
       chunk_duration = chunk_dur,
       overlap = ovl,
       sample_rate = 16000,
       chunk_size = py_int (chunk_dur * 16000),
       overlap_size = py_int (ovl * 16000),
       tokenizer = CharTokenizer_init,
       result_queue = [],
       is_streaming = False,
       model_calls = [] \<rparr>"

text \<open>
  \<^verbatim>\<open>
  def _detect_speech_energy(self, audio_chunk):
      energy = np.sum(audio_chunk ** 2) / len(audio_chunk)
      return energy > 0.001
  \<close>
  The squares, the sum, the quotient and the comparison are numpy's operations. On an
  empty chunk numpy divides zero by zero: the energy is not a number (\<open>None\<close> here)
  and the comparison is false.
\<close>

definition energy :: "RealTimeStreamer \<Rightarrow> sample list \<Rightarrow> sample option" where
  "energy s audio_chunk =
     (if audio_chunk = [] then None
      else Some (np_divide (np s) (np_sum (np s) (map (np_square (np s)) audio_chunk))
                   (int (length audio_chunk))))"

definition detect_speech_energy :: "RealTimeStreamer \<Rightarrow> sample list \<Rightarrow> bool" where
  "detect_speech_energy s audio_chunk =
     (case energy s audio_chunk of None \<Rightarrow> False | Some e \<Rightarrow> np_greater (np s) e (1 / 1000))"

text \<open>
  \<^verbatim>\<open>
  def process_audio_chunk(self, audio_chunk):
      if len(audio_chunk) < self.chunk_size:
          return ""
      audio_chunk = torch.tensor(audio_chunk, dtype=torch.float32).unsqueeze(0).to(self.device)
      with torch.no_grad():
          with autocast():
              log_probs = self.model(audio_chunk)
              predicted_ids = torch.argmax(log_probs, dim=-1)
      transcription = self.tokenizer.decode(predicted_ids[0].cpu().numpy())
      return transcription
  \<close>
\<close>

definition process_audio_chunk ::
  "RealTimeStreamer \<Rightarrow> sample list \<Rightarrow> RealTimeStreamer \<times> (error + string)" where
  "process_audio_chunk s audio_chunk =
     (if int (length audio_chunk) < chunk_size s then (s, Inr [])
      else
        let s' = s\<lparr>model_calls := model_calls s @ [audio_chunk]\<rparr> in
        case model s audio_chunk of
          Inl e \<Rightarrow> (s', Inl e)
        | Inr log_probs \<Rightarrow>
            (case argmax_rows log_probs of
               Inl e \<Rightarrow> (s', Inl e)
             | Inr predicted_ids \<Rightarrow> (s', Inr (decode (tokenizer s) predicted_ids))))"

text \<open>
  \<^verbatim>\<open>
  def _simulate_realtime_processing(self, waveform):
      step_size = self.chunk_size - self.overlap_size
      for i in range(0, len(waveform) - self.chunk_size, step_size):
          if not self.is_streaming:
              break
          chunk = waveform[i:i + self.chunk_size]
          is_speech = self._detect_speech_energy(chunk)
          if is_speech:
              transcription = self.process_audio_chunk(chunk)
              if transcription.strip():
                  self.result_queue.put(transcription)
          time.sleep(self.chunk_duration * 0.8)
  \<close>
  \<open>realtime_offsets\<close> is the range of the loop, \<open>realtime_body\<close> the body after the
  test of the flag (the sleep has no effect on the state), \<open>realtime_loop\<close> the loop
  over the offsets still to come. \<open>simulate_realtime_processing\<close> is the method run
  alone, with no other thread writing the flag; an exception ends it and leaves the
  state as it was when raised.
\<close>

definition realtime_offsets :: "RealTimeStreamer \<Rightarrow> sample list \<Rightarrow> error + int list" where
  "realtime_offsets s waveform =
     (let step_size = chunk_size s - overlap_size s
      in py_range 0 (int (length waveform) - chunk_size s) step_size)"

definition realtime_body ::
  "sample list \<Rightarrow> int \<Rightarrow> RealTimeStreamer \<Rightarrow> RealTimeStreamer \<times> error option" where
  "realtime_body waveform i s =
     (let chunk = py_slice waveform i (i + chunk_size s);
          is_speech = detect_speech_energy s chunk
      in if is_speech then
           (case process_audio_chunk s chunk of
              (s', Inl e) \<Rightarrow> (s', Some e)
            | (s', Inr transcription) \<Rightarrow>
                (if py_strip transcription \<noteq> []
                 then (s'\<lparr>result_queue := result_queue s' @ [Str transcription]\<rparr>, None)
                 else (s', None)))
         else (s, None))"

fun realtime_loop ::
  "sample list \<Rightarrow> int list \<Rightarrow> RealTimeStreamer \<Rightarrow> RealTimeStreamer \<times> error option" where
  "realtime_loop waveform [] s = (s, None)"
| "realtime_loop waveform (i # rest) s =
     (if \<not> is_streaming s then (s, None)
      else case realtime_body waveform i s of
             (s', Some e) \<Rightarrow> (s', Some e)
           | (s', None) \<Rightarrow> realtime_loop waveform rest s')"

definition simulate_realtime_processing ::
  "RealTimeStreamer \<Rightarrow> sample list \<Rightarrow> RealTimeStreamer \<times> error option" where
  "simulate_realtime_processing s waveform =
     (case realtime_offsets s waveform of
        Inl e \<Rightarrow> (s, Some e)
      | Inr offsets \<Rightarrow> realtime_loop waveform offsets s)"

text \<open>The windows the loop slices when it runs to its end.\<close>

definition realtime_windows :: "RealTimeStreamer \<Rightarrow> sample list \<Rightarrow> error + sample list list" where
  "realtime_windows s waveform =
     (case realtime_offsets s waveform of
        Inl e \<Rightarrow> Inl e
      | Inr offsets \<Rightarrow> Inr (map (\<lambda>i. py_slice waveform i (i + chunk_size s)) offsets))"

text \<open>
  \<^verbatim>\<open>
  def process_uploaded_audio(self, audio_file_path):
      results = []
      ...
      step_size = self.chunk_size // 2
      for i in range(0, len(waveform) - self.chunk_size, step_size):
          chunk = waveform[i:i + self.chunk_size]
          if self._detect_speech_energy(chunk):
              transcription = self.process_audio_chunk(chunk)
              if transcription.strip():
                  timestamp = i / self.sample_rate
                  results.append((timestamp, transcription))
      return results
  \<close>
  The waveform is the file's samples after loading and resampling, which are outside the
  model. An exception propagates to the caller and no list is returned.
\<close>

definition uploaded_offsets :: "RealTimeStreamer \<Rightarrow> sample list \<Rightarrow> error + int list" where
  "uploaded_offsets s waveform =
     (let step_size = chunk_size s div 2
      in py_range 0 (int (length waveform) - chunk_size s) step_size)"

fun uploaded_loop ::
  "sample list \<Rightarrow> int list \<Rightarrow> RealTimeStreamer \<Rightarrow> (rat \<times> string) list \<Rightarrow>
   RealTimeStreamer \<times> (error + (rat \<times> string) list)" where
  "uploaded_loop waveform [] s results = (s, Inr results)"
| "uploaded_loop waveform (i # rest) s results =
     (let chunk = py_slice waveform i (i + chunk_size s) in
      if detect_speech_energy s chunk then
        (case process_audio_chunk s chunk of
           (s', Inl e) \<Rightarrow> (s', Inl e)
         | (s', Inr transcription) \<Rightarrow>
             (if py_strip transcription \<noteq> [] then
                (if sample_rate s' = 0 then (s', Inl ZeroDivisionError)
                 else let timestamp = of_int i / of_int (sample_rate s')
                      in uploaded_loop waveform rest s' (results @ [(timestamp, transcription)]))
              else uploaded_loop waveform rest s' results))
      else uploaded_loop waveform rest s results)"

definition process_uploaded_audio ::
  "RealTimeStreamer \<Rightarrow> sample list \<Rightarrow> RealTimeStreamer \<times> (error + (rat \<times> string) list)" where
  "process_uploaded_audio s waveform =
     (case uploaded_offsets s waveform of
        Inl e \<Rightarrow> (s, Inl e)
      | Inr offsets \<Rightarrow> uploaded_loop waveform offsets s [])"

text \<open>
  \<^verbatim>\<open>
  def process_from_microphone_data(self, audio_data):
      self.is_streaming = True
      for i in range(0, len(audio_data) - self.chunk_size, self.chunk_size // 2):
          chunk = audio_data[i:i + self.chunk_size]
          is_speech = self._detect_speech_energy(chunk)
          if is_speech:
              transcription = self.process_audio_chunk(chunk)
              if transcription.strip():
                  yield transcription
  \<close>
  The generator, drained by its caller: the streamer afterwards, the texts yielded in
  order, and the exception that ended it, if any. \<open>microphone_offsets\<close> is the range
  of its loop.
\<close>

definition microphone_offsets :: "RealTimeStreamer \<Rightarrow> sample list \<Rightarrow> error + int list" where
  "microphone_offsets s audio_data =
     py_range 0 (int (length audio_data) - chunk_size s) (chunk_size s div 2)"

fun microphone_loop ::
  "sample list \<Rightarrow> int list \<Rightarrow> RealTimeStreamer \<Rightarrow> string list \<Rightarrow>
   RealTimeStreamer \<times> string list \<times> error option" where
  "microphone_loop audio_data [] s yielded = (s, yielded, None)"
| "microphone_loop audio_data (i # rest) s yielded =
     (let chunk = py_slice audio_data i (i + chunk_size s);
          is_speech = detect_speech_energy s chunk
      in if is_speech then
           (case process_audio_chunk s chunk of
              (s', Inl e) \<Rightarrow> (s', yielded, Some e)
            | (s', Inr transcription) \<Rightarrow>
                (if py_strip transcription \<noteq> []
                 then microphone_loop audio_data rest s' (yielded @ [transcription])
                 else microphone_loop audio_data rest s' yielded))
         else microphone_loop audio_data rest s yielded)"

definition process_from_microphone_data ::
  "RealTimeStreamer \<Rightarrow> sample list \<Rightarrow> RealTimeStreamer \<times> string list \<times> error option" where
  "process_from_microphone_data s audio_data =
     (let s1 = s\<lparr>is_streaming := True\<rparr> in
      case microphone_offsets s1 audio_data of
        Inl e \<Rightarrow> (s1, [], Some e)
      | Inr offsets \<Rightarrow> microphone_loop audio_data offsets s1 [])"

text \<open>
  \<^verbatim>\<open>
  def get_latest_transcription(self):
      try:
          return self.result_queue.get_nowait()
      except queue.Empty:
          return None

  def stop_streaming(self):
      self.is_streaming = False
  \<close>
  The queue is first in, first out: \<^verbatim>\<open>put\<close> appends at the end and
  \<^verbatim>\<open>get_nowait\<close> removes the first element, or raises \<^verbatim>\<open>queue.Empty\<close> at once.
\<close>

definition get_latest_transcription :: "RealTimeStreamer \<Rightarrow> pyval \<times> RealTimeStreamer" where
  "get_latest_transcription s =
     (case result_queue s of
        [] \<Rightarrow> (PyNone, s)
      | item # rest \<Rightarrow> (item, s\<lparr>result_queue := rest\<rparr>))"

definition stop_streaming :: "RealTimeStreamer \<Rightarrow> RealTimeStreamer" where
  "stop_streaming s = s\<lparr>is_streaming := False\<rparr>"

section \<open>The worker thread and its consumer\<close>

text \<open>
  \<^verbatim>\<open>
  def simulate_streaming_from_file(self, audio_file_path):
      ...
      self.is_streaming = True
      processing_thread = threading.Thread(target=self._simulate_realtime_processing,
                                           args=(waveform,))
      processing_thread.start()
      return processing_thread
  \<close>
  The worker thread runs \<^verbatim>\<open>_simulate_realtime_processing\<close> while the caller may call
  \<^verbatim>\<open>stop_streaming\<close> and \<^verbatim>\<open>get_latest_transcription\<close>. The thread is a small
  machine over the same \<open>realtime_offsets\<close> and \<open>realtime_body\<close>: at the loop head
  it takes the next offset and tests the flag; in the body it slices, gates, infers,
  decodes and publishes. The caller's actions interleave with these steps in any order.
  A stop that arrives while the body runs is a stop between the test of the flag and the
  body step. \<open>observed\<close> lists what the polls of the consumer returned.
\<close>

datatype pc = NotStarted | AtLoopHead | InBody int | Finished | Died error

record system =
  streamer :: RealTimeStreamer
  worker_pc :: pc
  pending :: "int list"
  observed :: "pyval list"

datatype action = WorkerStep | StopStreaming | Poll

definition simulate_streaming_from_file :: "RealTimeStreamer \<Rightarrow> system" where
  "simulate_streaming_from_file s =
     \<lparr> streamer = s\<lparr>is_streaming := True\<rparr>, worker_pc = NotStarted, pending = [], observed = [] \<rparr>"

definition worker_step :: "sample list \<Rightarrow> system \<Rightarrow> system" where
  "worker_step waveform sys =
     (case worker_pc sys of
        NotStarted \<Rightarrow>
          (case realtime_offsets (streamer sys) waveform of
             Inl e \<Rightarrow> sys\<lparr>worker_pc := Died e\<rparr>
           | Inr offsets \<Rightarrow> sys\<lparr>worker_pc := AtLoopHead, pending := offsets\<rparr>)
      | AtLoopHead \<Rightarrow>
          (case pending sys of
             [] \<Rightarrow> sys\<lparr>worker_pc := Finished\<rparr>
           | i # rest \<Rightarrow>
               (if \<not> is_streaming (streamer sys) then sys\<lparr>worker_pc := Finished, pending := rest\<rparr>
                else sys\<lparr>worker_pc := InBody i, pending := rest\<rparr>))
      | InBody i \<Rightarrow>
          (case realtime_body waveform i (streamer sys) of
             (s', Some e) \<Rightarrow> sys\<lparr>streamer := s', worker_pc := Died e\<rparr>
           | (s', None) \<Rightarrow> sys\<lparr>streamer := s', worker_pc := AtLoopHead\<rparr>)
      | Finished \<Rightarrow> sys
      | Died e \<Rightarrow> sys)"

fun step :: "sample list \<Rightarrow> action \<Rightarrow> system \<Rightarrow> system" where
  "step waveform WorkerStep sys = worker_step waveform sys"
| "step waveform StopStreaming sys = sys\<lparr>streamer := stop_streaming (streamer sys)\<rparr>"
| "step waveform Poll sys =
     (case get_latest_transcription (streamer sys) of
        (v, s') \<Rightarrow> sys\<lparr>streamer := s', observed := observed sys @ [v]\<rparr>)"

fun run :: "sample list \<Rightarrow> action list \<Rightarrow> system \<Rightarrow> system" where
  "run waveform [] sys = sys"
| "run waveform (a # as) sys = run waveform as (step waveform a sys)"

text \<open>The worker has left its loop, normally or by an exception.\<close>

fun exited :: "pc \<Rightarrow> bool" where
  "exited Finished = True"
| "exited (Died e) = True"
| "exited _ = False"

text \<open>
  Two states of a streamer agree on the fields that no method writes after construction:
  the numpy operations, the model, the sizes, the sample rate and the tokenizer.
\<close>

definition same_config :: "RealTimeStreamer \<Rightarrow> RealTimeStreamer \<Rightarrow> bool" where
  "same_config s s' \<longleftrightarrow>
     np s' = np s \<and> model s' = model s \<and> chunk_size s' = chunk_size s \<and> overlap_size s' = overlap_size s \<and>
     sample_rate s' = sample_rate s \<and> tokenizer s' = tokenizer s"

text \<open>
  The result of the batch loop for the window at offset \<open>i\<close>: its timestamp is the
  offset over the sample rate, its text is what \<^verbatim>\<open>process_audio_chunk\<close> returns for
  that window, and the text is not empty after trimming.
\<close>

definition uploaded_result :: "RealTimeStreamer \<Rightarrow> sample list \<Rightarrow> int \<Rightarrow> rat \<times> string \<Rightarrow> bool" where
  "uploaded_result s waveform i r \<longleftrightarrow>
     fst r = of_int i / of_int (sample_rate s) \<and>
     snd (process_audio_chunk s (py_slice waveform i (i + chunk_size s))) = Inr (snd r) \<and>
     py_strip (snd r) \<noteq> []"

text \<open>
  What each of the three loops hands on for the window at offset \<open>i\<close>: the text that
  \<^verbatim>\<open>process_audio_chunk\<close> returns for the window, when the window passes the gate,
  the call returns and the text is not empty after trimming; nothing otherwise.
\<close>

definition texts_at :: "RealTimeStreamer \<Rightarrow> sample list \<Rightarrow> int \<Rightarrow> string list" where
  "texts_at s waveform i =
     (let chunk = py_slice waveform i (i + chunk_size s)
      in if detect_speech_energy s chunk then
           (case snd (process_audio_chunk s chunk) of
              Inl e \<Rightarrow> []
            | Inr transcription \<Rightarrow> if py_strip transcription \<noteq> [] then [transcription] else [])
         else [])"

text \<open>What the body at offset \<open>i\<close> puts on the result queue.\<close>

definition published_by :: "RealTimeStreamer \<Rightarrow> sample list \<Rightarrow> int \<Rightarrow> pyval list" where
  "published_by s waveform i =
     drop (length (result_queue s)) (result_queue (fst (realtime_body waveform i s)))"

text \<open>The results a consumer has received: the polls that did not return \<^verbatim>\<open>None\<close>.\<close>

definition received :: "system \<Rightarrow> pyval list" where
  "received sys = filter (\<lambda>v. v \<noteq> PyNone) (observed sys)"

text \<open>
  The invariant of the worker thread started on the streamer \<open>s0\<close> with the queue
  content \<open>q0\<close> and the offsets \<open>offsets\<close>: the configuration is unchanged, the
  queue never holds \<^verbatim>\<open>None\<close>, and what the consumer has received followed by what
  is still queued is \<open>q0\<close> followed by the publications of the offsets whose body has
  run, which are the offsets that are neither pending nor in the body.
\<close>

definition worker_invariant ::
  "RealTimeStreamer \<Rightarrow> sample list \<Rightarrow> int list \<Rightarrow> pyval list \<Rightarrow> system \<Rightarrow> bool" where
  "worker_invariant s0 waveform offsets q0 sys \<longleftrightarrow>
     same_config s0 (streamer sys) \<and>
     PyNone \<notin> set (result_queue (streamer sys)) \<and>
     (\<exists>done.
        received sys @ result_queue (streamer sys)
          = q0 @ concat (map (published_by s0 waveform) done) \<and>
        (case worker_pc sys of
           NotStarted \<Rightarrow> done = []
         | AtLoopHead \<Rightarrow> done @ pending sys = offsets
         | InBody i \<Rightarrow> done @ i # pending sys = offsets
         | Finished \<Rightarrow> prefix done offsets
         | Died e \<Rightarrow> prefix done offsets))"

text \<open>
  The specification's \<^verbatim>\<open>TranscriptionResult\<close>, a timestamp paired with a text, as a
  predicate on the objects of the queue.
\<close>

fun is_TranscriptionResult :: "pyval \<Rightarrow> bool" where
  "is_TranscriptionResult (Tuple [Float timestamp, Str text]) = True"
| "is_TranscriptionResult _ = False"

section \<open>A stub of numpy's 32-bit arithmetic\<close>

text \<open>
  Rounding to the nearest 32-bit float, ties to even: a float has 24 significant bits, and
  below \<open>2 ^ - 126\<close> the spacing stays \<open>2 ^ - 149\<close>. Values beyond the largest float are
  not represented. \<open>float_exponent x\<close> is the \<open>e\<close> with
  \<open>2 ^ e \<le> |x| < 2 ^ (e + 1)\<close>.
\<close>

function bit_length :: "int \<Rightarrow> int" where
  "bit_length n = (if n \<le> 0 then 0 else 1 + bit_length (n div 2))"
  by pat_completeness auto
termination
  by (relation "measure nat") auto

declare bit_length.simps [simp del]

definition pow2 :: "int \<Rightarrow> rat" where
  "pow2 e = (if 0 \<le> e then 2 ^ nat e else 1 / 2 ^ nat (- e))"

definition float_exponent :: "rat \<Rightarrow> int" where
  "float_exponent x =
     (let a = \<bar>x\<bar> in
      if 1 \<le> a then bit_length \<lfloor>a\<rfloor> - 1
      else let k = bit_length \<lfloor>1 / a\<rfloor> - 1
           in if a = pow2 (- k) then - k else - k - 1)"

definition round_half_even :: "rat \<Rightarrow> int" where
  "round_half_even x =
     (let f = \<lfloor>x\<rfloor>; d = x - of_int f
      in if d < 1 / 2 then f else if 1 / 2 < d then f + 1 else if even f then f else f + 1)"

definition round32 :: "rat \<Rightarrow> rat" where
  "round32 x =
     (if x = 0 then 0
      else let q = pow2 (max (float_exponent x - 23) (- 149))
           in of_int (round_half_even (x / q)) * q)"

text \<open>
  The stub: the square, every partial sum, the quotient and the threshold are rounded to
  32-bit floats, and the sum adds from left to right.
\<close>

definition float32_ops :: numpy where
  "float32_ops =
     \<lparr> np_square = (\<lambda>x. round32 (x * x)),
       np_sum = foldl (\<lambda>acc x. round32 (acc + x)) 0,
       np_divide = (\<lambda>x n. round32 (x / of_int n)),
       np_greater = (\<lambda>e t. round32 t < e) \<rparr>"



section \<open>A stub model and small configurations\<close>

text \<open>
  A frame of 28 log-probabilities whose maximum is at index \<open>k\<close>, and a stub adapter
  that answers every chunk with the frames blank, H, H, I, blank. The streamer
  \<open>demo_streamer\<close> has a chunk of 4 samples and an overlap of 2 samples, and the
  32-bit stub for its arithmetic, as the other streamers below.
\<close>

definition one_hot :: "nat \<Rightarrow> sample list" where
  "one_hot k = replicate k (- 1) @ [0] @ replicate (27 - k) (- 1)"

definition hi_frames :: "sample list list" where
  "hi_frames = map one_hot [0, 8, 8, 9, 0]"

definition hi_model :: "sample list \<Rightarrow> error + sample list list" where
  "hi_model audio_chunk = Inr hi_frames"

definition demo_streamer :: RealTimeStreamer where
  "demo_streamer = RealTimeStreamer_init float32_ops hi_model (4 / 16000) (2 / 16000)"

text \<open>
  The streamer with the default chunk of 0.32 seconds (5120 samples) and the default overlap
  of 0.16 seconds (2560 samples).
\<close>

definition default_streamer :: RealTimeStreamer where
  "default_streamer = RealTimeStreamer_init float32_ops hi_model (32 / 100) (16 / 100)"

text \<open>
  The same streamer with the flag raised, as the worker finds it; a waveform of nine loud
  samples; a waveform whose first four samples are silent; a waveform of nine different
  samples; and a schedule in which the consumer polls while the worker runs.
\<close>

definition live_streamer :: RealTimeStreamer where
  "live_streamer = demo_streamer\<lparr>is_streaming := True\<rparr>"


definition loud_waveform :: "sample list" where
  "loud_waveform = [1, 1, 1, 1, 1, 1, 1, 1, 1]"


definition ramp_waveform :: "sample list" where
  "ramp_waveform = [1, 2, 3, 4, 5, 6, 7, 8, 9]"

text \<open>
  A stub adapter that answers a chunk with one frame whose maximum is at the index given by
  the chunk's first sample, so that windows starting with 1, 3 and 5 decode to A, C and E;
  the streamer \<open>letter_streamer\<close> uses it, with the flag raised.
\<close>

definition letter_model :: "sample list \<Rightarrow> error + sample list list" where
  "letter_model audio_chunk =
     (case audio_chunk of [] \<Rightarrow> Inl ModelError | x # xs \<Rightarrow> Inr [one_hot (nat \<lfloor>x\<rfloor>)])"

definition letter_streamer :: RealTimeStreamer where
  "letter_streamer =
     (RealTimeStreamer_init float32_ops letter_model (4 / 16000) (2 / 16000))\<lparr>is_streaming := True\<rparr>"

definition demo_schedule :: "action list" where
  "demo_schedule =
     [WorkerStep, WorkerStep, WorkerStep, Poll, WorkerStep, WorkerStep, Poll, Poll,
      WorkerStep, WorkerStep, WorkerStep, Poll]"

section \<open>The vocabulary tables\<close>

lemma fold_update_map_add:
  "fold (\<lambda>(k, v) m. m(k \<mapsto> v)) kvs m0 = m0 ++ map_of (rev kvs)"
  by (induction kvs arbitrary: m0) (auto simp: map_add_upd_left fun_eq_iff map_add_def split: option.splits)

lemma map_of_rev_distinct:
  assumes "distinct (map fst kvs)"
  shows "map_of (rev kvs) = map_of kvs"
proof (rule ext)
  fix k
  have d: "distinct (map fst (rev kvs))" using assms by (simp add: rev_map[symmetric])
  show "map_of (rev kvs) k = map_of kvs k"
  proof (cases "map_of kvs k")
    case None
    then have "k \<notin> fst ` set kvs" by (simp add: map_of_eq_None_iff)
    then have "map_of (rev kvs) k = None" by (simp add: map_of_eq_None_iff)
    with None show ?thesis by simp
  next
    case (Some v)
    then have "(k, v) \<in> set (rev kvs)" by (auto dest: map_of_SomeD)
    with d have "map_of (rev kvs) k = Some v" by (simp only: map_of_eq_Some_iff)
    with Some show ?thesis by simp
  qed
qed

lemma dict_of_distinct: "distinct (map fst kvs) \<Longrightarrow> dict_of kvs = map_of kvs"
  by (simp add: dict_of_def fold_update_map_add map_of_rev_distinct)

lemma dict_of_enumerate:
  "dict_of (py_enumerate xs) i =
     (if 0 \<le> i \<and> i < int (length xs) then Some (xs ! nat i) else None)"
proof -
  have dist: "distinct (map int [0..<length xs])"
    by (simp add: distinct_map inj_on_def)
  have eq: "dict_of (py_enumerate xs) = map_of (zip (map int [0..<length xs]) xs)"
    unfolding py_enumerate_def by (rule dict_of_distinct) (simp add: dist)
  show ?thesis
  proof (cases "0 \<le> i \<and> i < int (length xs)")
    case True
    then have n: "nat i < length xs" by linarith
    have "map_of (zip (map int [0..<length xs]) xs) (map int [0..<length xs] ! nat i) = Some (xs ! nat i)"
      by (rule map_of_zip_nth) (use dist n in simp_all)
    with True n show ?thesis by (simp add: eq)
  next
    case False
    then have "i \<notin> set (map int [0..<length xs])" by auto
    then have none: "map_of (zip (map int [0..<length xs]) xs) i = None"
      by (simp add: map_of_zip_is_None)
    show ?thesis by (simp only: eq none False if_False)
  qed
qed

lemma length_vocabulary: "length vocabulary = 28"
  by (simp add: vocabulary_def)

lemma idx_to_char_init:
  "idx_to_char CharTokenizer_init i =
     (if 0 \<le> i \<and> i < 28 then Some (vocabulary ! nat i) else None)"
  by (simp add: CharTokenizer_init_def dict_of_enumerate length_vocabulary)

lemma distinct_vocabulary: "distinct vocabulary"
  by (simp add: vocabulary_def apostrophe_def)

lemma char_to_idx_init:
  "char_to_idx CharTokenizer_init c = Some i \<longleftrightarrow> (0 \<le> i \<and> i < 28 \<and> vocabulary ! nat i = c)"
proof -
  let ?is = "map int [0..<length vocabulary]"
  have swap: "map (\<lambda>(idx, char). (char, idx)) (py_enumerate vocabulary) = zip vocabulary ?is"
    unfolding py_enumerate_def by (rule zip_commute [symmetric])
  have dist: "distinct (map fst (zip vocabulary ?is))"
    by (simp add: distinct_vocabulary)
  have "char_to_idx CharTokenizer_init = map_of (zip vocabulary ?is)"
    by (simp add: CharTokenizer_init_def swap dict_of_distinct [OF dist])
  then have "char_to_idx CharTokenizer_init c = Some i \<longleftrightarrow> (c, i) \<in> set (zip vocabulary ?is)"
    using dist by simp
  also have "\<dots> \<longleftrightarrow> (\<exists>k < 28. vocabulary ! k = c \<and> int k = i)"
    by (auto simp: set_zip length_vocabulary)
  also have "\<dots> \<longleftrightarrow> (0 \<le> i \<and> i < 28 \<and> vocabulary ! nat i = c)"
  proof
    assume "\<exists>k < 28. vocabulary ! k = c \<and> int k = i"
    then show "0 \<le> i \<and> i < 28 \<and> vocabulary ! nat i = c" by auto
  next
    assume a: "0 \<le> i \<and> i < 28 \<and> vocabulary ! nat i = c"
    then have "nat i < 28 \<and> vocabulary ! nat i = c \<and> int (nat i) = i" by linarith
    then show "\<exists>k < 28. vocabulary ! k = c \<and> int k = i" by blast
  qed
  finally show ?thesis .
qed


lemma vocabulary_0: "vocabulary ! 0 = CHR '' ''"
  by (simp add: vocabulary_def)

lemma vocabulary_nth_space: "k < 28 \<Longrightarrow> vocabulary ! k = CHR '' '' \<longleftrightarrow> k = 0"
  using nth_eq_iff_index_eq [OF distinct_vocabulary, of k 0]
  by (simp add: length_vocabulary vocabulary_0)

lemma vocabulary_upper: "c \<in> set vocabulary \<Longrightarrow> upper_char c = c"
proof -
  have "list_all (\<lambda>c. upper_char c = c) vocabulary"
    by (simp add: vocabulary_def upper_char_def apostrophe_def)
  then show "c \<in> set vocabulary \<Longrightarrow> upper_char c = c"
    by (simp add: list_all_iff)
qed

lemma vocabulary_isspace: "c \<in> set vocabulary \<Longrightarrow> py_isspace c \<longleftrightarrow> c = CHR '' ''"
proof -
  have "list_all (\<lambda>c. py_isspace c \<longleftrightarrow> c = CHR '' '') vocabulary"
    by (simp add: vocabulary_def py_isspace_def apostrophe_def)
  then show "c \<in> set vocabulary \<Longrightarrow> py_isspace c \<longleftrightarrow> c = CHR '' ''"
    by (simp add: list_all_iff)
qed

lemma py_strip_no_space:
  assumes "\<forall>c \<in> set t. \<not> py_isspace c"
  shows "py_strip t = t"
proof -
  have dw: "dropWhile py_isspace xs = xs" if "\<forall>c \<in> set xs. \<not> py_isspace c" for xs
    using that by (cases xs) simp_all
  have "dropWhile py_isspace (rev t) = rev t"
    using assms by (intro dw) simp
  then show ?thesis
    using assms by (simp add: py_strip_def dw)
qed

lemma py_upper_vocabulary: "set t \<subseteq> set vocabulary \<Longrightarrow> py_upper t = t"
  unfolding py_upper_def by (rule map_idI) (auto simp: vocabulary_upper)

lemma char_to_idx_space: "char_to_idx CharTokenizer_init (CHR '' '') = Some 0"
  by (simp add: char_to_idx_init vocabulary_0)

lemma vocabulary_char:
  assumes "c \<in> set vocabulary"
  obtains k where "k < 28" and "vocabulary ! k = c"
    and "char_to_idx CharTokenizer_init c = Some (int k)"
    and "idx_to_char CharTokenizer_init (int k) = Some c"
proof -
  from assms obtain k where k: "k < 28" "vocabulary ! k = c"
    by (auto simp: in_set_conv_nth length_vocabulary)
  then have "char_to_idx CharTokenizer_init c = Some (int k)"
    by (simp add: char_to_idx_init)
  moreover from k have "idx_to_char CharTokenizer_init (int k) = Some c"
    by (simp add: idx_to_char_init)
  ultimately show thesis using k that by blast
qed

lemma decode_encode_char:
  assumes "c \<in> set vocabulary"
  shows "concat (map (\<lambda>idx. case idx_to_char CharTokenizer_init idx of Some c \<Rightarrow> [c] | None \<Rightarrow> [])
           (filter (\<lambda>idx. idx \<noteq> 0)
              [case char_to_idx CharTokenizer_init c of Some idx \<Rightarrow> idx | None \<Rightarrow> 0]))
         = (if c \<noteq> CHR '' '' then [c] else [])"
proof -
  from assms obtain k where k: "k < 28" "vocabulary ! k = c"
    "char_to_idx CharTokenizer_init c = Some (int k)"
    "idx_to_char CharTokenizer_init (int k) = Some c"
    by (rule vocabulary_char)
  from k(1,2) have "c = CHR '' '' \<longleftrightarrow> k = 0"
    using vocabulary_nth_space by blast
  with k show ?thesis by simp
qed

lemma decode_encode_chars:
  assumes "set t \<subseteq> set vocabulary"
  shows "concat (map (\<lambda>idx. case idx_to_char CharTokenizer_init idx of Some c \<Rightarrow> [c] | None \<Rightarrow> [])
           (filter (\<lambda>idx. idx \<noteq> 0)
              (map (\<lambda>char. case char_to_idx CharTokenizer_init char of Some idx \<Rightarrow> idx | None \<Rightarrow> 0) t)))
         = filter (\<lambda>c. c \<noteq> CHR '' '') t"
  using assms
proof (induction t)
  case Nil
  then show ?case by simp
next
  case (Cons c t)
  then have c: "c \<in> set vocabulary" and rest: "set t \<subseteq> set vocabulary" by simp_all
  show ?case
    using decode_encode_char [OF c] Cons.IH [OF rest]
    by (simp split: if_splits)
qed

lemma blank_idx_init: "blank_idx CharTokenizer_init = 0"
  by (simp add: CharTokenizer_init_def)

lemma set_tl_vocabulary:
  "set (tl vocabulary) = set ''ABCDEFGHIJKLMNOPQRSTUVWXYZ'' \<union> {apostrophe}"
  by (simp add: vocabulary_def insert_commute)

lemma visible_bij:
  "bij_betw (\<lambda>idx. the (idx_to_char CharTokenizer_init idx)) {1..27}
     (set ''ABCDEFGHIJKLMNOPQRSTUVWXYZ'' \<union> {apostrophe})"
proof -
  let ?f = "\<lambda>idx. the (idx_to_char CharTokenizer_init idx)"
  have f: "?f i = vocabulary ! nat i" if "i \<in> {1..27}" for i
    using that by (simp add: idx_to_char_init)
  have inj: "inj_on ?f {1..27}"
  proof (rule inj_onI)
    fix i j :: int
    assume i: "i \<in> {1..27}" and j: "j \<in> {1..27}" and eq: "?f i = ?f j"
    then have "vocabulary ! nat i = vocabulary ! nat j" by (simp add: f)
    moreover have "nat i < 28" "nat j < 28"
      using i j by auto
    then have "nat i < length vocabulary" "nat j < length vocabulary"
      by (simp_all add: length_vocabulary)
    ultimately have "nat i = nat j"
      using nth_eq_iff_index_eq [OF distinct_vocabulary] by blast
    with i j show "i = j" by auto
  qed
  have img: "?f ` {1..27} = set (tl vocabulary)"
  proof (rule set_eqI, rule iffI)
    fix c
    assume "c \<in> ?f ` {1..27}"
    then obtain i where i: "i \<in> {1..27}" and c: "c = vocabulary ! nat i" by (auto simp: f)
    then obtain k where k: "nat i = Suc k" "k < 27"
      by (cases "nat i") auto
    then have "c = tl vocabulary ! k" by (simp add: c nth_tl length_vocabulary)
    moreover have "k < length (tl vocabulary)" using k by (simp add: length_vocabulary)
    ultimately show "c \<in> set (tl vocabulary)" by simp
  next
    fix c
    assume "c \<in> set (tl vocabulary)"
    then obtain k where k: "k < 27" "c = tl vocabulary ! k"
      by (auto simp: in_set_conv_nth length_vocabulary)
    then have c: "c = vocabulary ! Suc k" by (simp add: nth_tl length_vocabulary)
    have mem: "int (Suc k) \<in> {1..27}" using k by simp
    have "?f (int (Suc k)) = vocabulary ! nat (int (Suc k))" using mem by (rule f)
    also have "\<dots> = vocabulary ! Suc k" by (simp only: nat_int)
    finally have "c = ?f (int (Suc k))" using c by simp
    then show "c \<in> ?f ` {1..27}" using mem by blast
  qed
  show ?thesis
    unfolding bij_betw_def using inj img set_tl_vocabulary by simp
qed

lemma decode_frames:
  "concat (map (\<lambda>idx. case idx_to_char CharTokenizer_init idx of Some c \<Rightarrow> [c] | None \<Rightarrow> [])
           (filter (\<lambda>idx. idx \<noteq> 0) ids))
     = map (\<lambda>idx. vocabulary ! nat idx) (filter (\<lambda>idx. 0 < idx \<and> idx < 28) ids)"
  by (induction ids) (auto simp: idx_to_char_init)

lemma visible_not_space:
  assumes "0 < idx" "idx < 28"
  shows "\<not> py_isspace (vocabulary ! nat idx)"
proof -
  have n: "nat idx < 28" using assms by linarith
  have z: "nat idx \<noteq> 0" using assms by linarith
  have "nat idx < length vocabulary" using n by (simp only: length_vocabulary)
  then have mem: "vocabulary ! nat idx \<in> set vocabulary" by (rule nth_mem)
  have "vocabulary ! nat idx \<noteq> CHR '' ''" using vocabulary_nth_space [OF n] z by simp
  then show ?thesis using vocabulary_isspace [OF mem] by simp
qed

lemma decode_init:
  "decode CharTokenizer_init ids
     = map (\<lambda>idx. vocabulary ! nat idx) (filter (\<lambda>idx. 0 < idx \<and> idx < 28) ids)"
proof -
  have "\<forall>c \<in> set (map (\<lambda>idx. vocabulary ! nat idx) (filter (\<lambda>idx. 0 < idx \<and> idx < 28) ids)).
          \<not> py_isspace c"
    by (auto simp: visible_not_space)
  then show ?thesis
    by (simp only: decode_def blank_idx_init decode_frames py_strip_no_space)
qed

lemma argmax_hi_frames: "argmax_rows hi_frames = Inr [0, 8, 8, 9, 0]"
  by code_simp

lemma demo_streamer_fields:
  "chunk_size demo_streamer = 4" "overlap_size demo_streamer = 2"
  "sample_rate demo_streamer = 16000" "tokenizer demo_streamer = CharTokenizer_init"
  "model demo_streamer = hi_model" "result_queue demo_streamer = []"
  "is_streaming demo_streamer = False" "model_calls demo_streamer = []"
  by (simp_all add: demo_streamer_def RealTimeStreamer_init_def py_int_def)



text \<open>
  For texts over the vocabulary, encoding and decoding again removes exactly the spaces:
  the space has index 0, and \<^verbatim>\<open>decode\<close> drops index 0.
\<close>

lemma decode_encode_removes_spaces:
  assumes "set t \<subseteq> set vocabulary"
  shows "decode_encode CharTokenizer_init t = Inr (filter (\<lambda>c. c \<noteq> CHR '' '') (py_upper t))"
proof -
  have up: "py_upper t = t"
    using assms by (rule py_upper_vocabulary)
  have enc: "encode CharTokenizer_init t =
      Inr (map (\<lambda>char. case char_to_idx CharTokenizer_init char of Some idx \<Rightarrow> idx | None \<Rightarrow> 0) t)"
    by (simp add: encode_def up char_to_idx_space)
  have nospace: "\<forall>c \<in> set (filter (\<lambda>c. c \<noteq> CHR '' '') t). \<not> py_isspace c"
    using assms by (auto simp: vocabulary_isspace)
  show ?thesis
    by (simp add: decode_encode_def enc decode_def blank_idx_init
        decode_encode_chars [OF assms] py_strip_no_space [OF nospace] up)
qed

lemma filter_dropWhile: "filter (\<lambda>c. \<not> P c) (dropWhile P xs) = filter (\<lambda>c. \<not> P c) xs"
  by (induction xs) simp_all

lemma filter_py_strip:
  "filter (\<lambda>c. \<not> py_isspace c) (py_strip t) = filter (\<lambda>c. \<not> py_isspace c) t"
proof -
  have "filter (\<lambda>c. \<not> py_isspace c) (py_strip t)
          = rev (filter (\<lambda>c. \<not> py_isspace c) (dropWhile py_isspace (rev (dropWhile py_isspace t))))"
    by (simp add: py_strip_def rev_filter)
  also have "\<dots> = rev (filter (\<lambda>c. \<not> py_isspace c) (rev (dropWhile py_isspace t)))"
    by (simp only: filter_dropWhile)
  also have "\<dots> = filter (\<lambda>c. \<not> py_isspace c) (dropWhile py_isspace t)"
    by (simp add: rev_filter)
  also have "\<dots> = filter (\<lambda>c. \<not> py_isspace c) t"
    by (simp only: filter_dropWhile)
  finally show ?thesis .
qed

lemma set_py_strip: "set (py_strip t) \<subseteq> set t"
proof -
  have "set (py_strip t) = set (dropWhile py_isspace (rev (dropWhile py_isspace t)))"
    by (simp add: py_strip_def)
  also have "\<dots> \<subseteq> set (rev (dropWhile py_isspace t))" by (rule set_dropWhileD [THEN subsetI])
  also have "\<dots> \<subseteq> set t" using set_dropWhileD [of _ py_isspace t] by auto
  finally show ?thesis .
qed

lemma filter_space_vocabulary:
  assumes "set t \<subseteq> set vocabulary"
  shows "filter (\<lambda>c. c \<noteq> CHR '' '') t = filter (\<lambda>c. \<not> py_isspace c) t"
  using assms by (intro filter_cong) (auto simp: vocabulary_isspace)

section \<open>One chunk and one iteration\<close>

lemma process_audio_chunk_calls:
  "model_calls (fst (process_audio_chunk s c)) =
     model_calls s @ (if chunk_size s \<le> int (length c) then [c] else [])"
  by (simp add: process_audio_chunk_def Let_def split: sum.splits)

lemma process_audio_chunk_queue:
  "result_queue (fst (process_audio_chunk s c)) = result_queue s"
  by (simp add: process_audio_chunk_def Let_def split: sum.splits)

lemma process_audio_chunk_state:
  "fst (process_audio_chunk s c) =
     s\<lparr>model_calls := model_calls s @ (if chunk_size s \<le> int (length c) then [c] else [])\<rparr>"
  by (simp add: process_audio_chunk_def Let_def split: sum.splits)



lemma realtime_body_state:
  "fst (realtime_body waveform i s) =
     s\<lparr>model_calls := model_calls (fst (realtime_body waveform i s)),
       result_queue := result_queue (fst (realtime_body waveform i s))\<rparr>"
  by (simp add: realtime_body_def Let_def process_audio_chunk_def split: sum.splits prod.splits)

lemma realtime_body_calls:
  "model_calls (fst (realtime_body waveform i s)) =
     model_calls s @
       (let chunk = py_slice waveform i (i + chunk_size s)
        in if detect_speech_energy s chunk \<and> chunk_size s \<le> int (length chunk) then [chunk] else [])"
  by (simp add: realtime_body_def Let_def process_audio_chunk_def split: sum.splits prod.splits)

lemma realtime_body_queue:
  "result_queue (fst (realtime_body waveform i s)) =
     result_queue s @
       (let chunk = py_slice waveform i (i + chunk_size s)
        in if detect_speech_energy s chunk then
             (case snd (process_audio_chunk s chunk) of
                Inl e \<Rightarrow> []
              | Inr transcription \<Rightarrow> if py_strip transcription \<noteq> [] then [Str transcription] else [])
           else [])"
  by (simp add: realtime_body_def Let_def process_audio_chunk_def split: sum.splits prod.splits)



lemma same_config_trans: "same_config s s' \<Longrightarrow> same_config s' s'' \<Longrightarrow> same_config s s''"
  by (simp add: same_config_def)

lemma process_audio_chunk_config: "same_config s (fst (process_audio_chunk s c))"
  by (simp add: process_audio_chunk_state same_config_def)

lemma process_audio_chunk_cong:
  "same_config s s' \<Longrightarrow> snd (process_audio_chunk s' c) = snd (process_audio_chunk s c)"
  by (simp add: process_audio_chunk_def same_config_def Let_def split: sum.splits)

lemma detect_speech_energy_cong:
  "same_config s s' \<Longrightarrow> detect_speech_energy s' c = detect_speech_energy s c"
  by (simp add: detect_speech_energy_def energy_def same_config_def)

lemma realtime_body_config: "same_config s (fst (realtime_body waveform i s))"
  by (subst realtime_body_state) (simp add: same_config_def)

lemma realtime_body_flag: "is_streaming (fst (realtime_body waveform i s)) = is_streaming s"
  by (subst realtime_body_state) simp


lemma texts_at_cong:
  assumes "same_config s s'"
  shows "texts_at s' waveform = texts_at s waveform"
proof (rule ext)
  fix i
  have size: "chunk_size s' = chunk_size s" using assms by (simp add: same_config_def)
  show "texts_at s' waveform i = texts_at s waveform i"
    using process_audio_chunk_cong [OF assms, of "py_slice waveform i (i + chunk_size s)"]
      detect_speech_energy_cong [OF assms, of "py_slice waveform i (i + chunk_size s)"]
    by (simp add: texts_at_def Let_def size)
qed

lemma realtime_body_texts:
  "result_queue (fst (realtime_body waveform i s)) = result_queue s @ map Str (texts_at s waveform i)"
  by (simp add: realtime_body_queue texts_at_def Let_def split: sum.splits)

lemma realtime_loop_exact:
  "\<exists>k \<le> length offsets.
     result_queue (fst (realtime_loop waveform offsets s))
       = result_queue s @ map Str (concat (map (texts_at s waveform) (take k offsets))) \<and>
     (is_streaming s \<and> snd (realtime_loop waveform offsets s) = None \<longrightarrow> k = length offsets)"
proof (induction offsets arbitrary: s)
  case Nil
  show ?case by (rule exI [of _ 0]) simp
next
  case (Cons i rest)
  show ?case
  proof (cases "is_streaming s")
    case False
    then show ?thesis by (intro exI [of _ 0]) simp
  next
    case True
    obtain s' r where body: "realtime_body waveform i s = (s', r)"
      by (cases "realtime_body waveform i s")
    have cfg: "same_config s s'"
      using realtime_body_config [of s waveform i] body by simp
    have flag: "is_streaming s'"
      using realtime_body_flag [of waveform i s] body True by simp
    have q1: "result_queue s' = result_queue s @ map Str (texts_at s waveform i)"
      using realtime_body_texts [of waveform i s] body by simp
    show ?thesis
    proof (cases r)
      case (Some e)
      have loop: "realtime_loop waveform (i # rest) s = (s', Some e)"
        using True body Some by simp
      show ?thesis
        unfolding loop by (intro exI [of _ "Suc 0"]) (simp add: q1)
    next
      case None
      have loop: "realtime_loop waveform (i # rest) s = realtime_loop waveform rest s'"
        using True body None by simp
      from Cons.IH [of s'] obtain k where
        k: "k \<le> length rest"
        and q: "result_queue (fst (realtime_loop waveform rest s'))
                  = result_queue s' @ map Str (concat (map (texts_at s' waveform) (take k rest)))"
        and full: "is_streaming s' \<and> snd (realtime_loop waveform rest s') = None \<longrightarrow> k = length rest"
        by blast
      have same: "texts_at s' waveform = texts_at s waveform"
        using cfg by (rule texts_at_cong)
      show ?thesis
        unfolding loop
        using k full flag by (intro exI [of _ "Suc k"]) (simp add: q q1 same)
    qed
  qed
qed

section \<open>The batch loop and the offsets\<close>

lemma subseq_sorted_wrt:
  "subseq xs ys \<Longrightarrow> sorted_wrt R ys \<Longrightarrow> sorted_wrt R xs"
proof (induction rule: list_emb.induct)
  case (list_emb_Nil ys)
  then show ?case by simp
next
  case (list_emb_Cons xs ys y)
  then show ?case by simp
next
  case (list_emb_Cons2 x y xs ys)
  then have "set xs \<subseteq> set ys" by (auto dest: list_emb_set)
  with list_emb_Cons2 show ?case by auto
qed

lemma uploaded_result_cong:
  "same_config s s' \<Longrightarrow> uploaded_result s' waveform i r = uploaded_result s waveform i r"
  using process_audio_chunk_cong [of s s' "py_slice waveform i (i + chunk_size s)"]
  by (simp add: uploaded_result_def same_config_def)

lemma uploaded_loop_results:
  "uploaded_loop waveform offsets s acc = (s', Inr res) \<Longrightarrow>
   \<exists>is new. res = acc @ new \<and> subseq is offsets \<and> list_all2 (uploaded_result s waveform) is new"
proof (induction offsets arbitrary: s acc)
  case Nil
  then have "res = acc @ []" by simp
  moreover have "subseq [] ([] :: int list)" by simp
  moreover have "list_all2 (uploaded_result s waveform) [] []" by simp
  ultimately show ?case by blast
next
  case (Cons i rest)
  let ?chunk = "py_slice waveform i (i + chunk_size s)"
  show ?case
  proof (cases "detect_speech_energy s ?chunk")
    case False
    with Cons.prems have "uploaded_loop waveform rest s acc = (s', Inr res)"
      by (simp add: Let_def)
    from Cons.IH [OF this] obtain "is" new where
      *: "res = acc @ new" "subseq is rest" "list_all2 (uploaded_result s waveform) is new"
      by blast
    from *(2) have "subseq is (i # rest)" by (rule list_emb_Cons)
    with * show ?thesis by blast
  next
    case True
    obtain s1 r where pac: "process_audio_chunk s ?chunk = (s1, r)"
      by (cases "process_audio_chunk s ?chunk")
    have cfg: "same_config s s1"
      using process_audio_chunk_config [of s ?chunk] pac by simp
    show ?thesis
    proof (cases r)
      case (Inl e)
      with Cons.prems True pac show ?thesis by (simp add: Let_def)
    next
      case (Inr t)
      show ?thesis
      proof (cases "py_strip t = []")
        case empty: True
        with Cons.prems \<open>detect_speech_energy s ?chunk\<close> pac Inr
        have "uploaded_loop waveform rest s1 acc = (s', Inr res)"
          by (simp add: Let_def)
        from Cons.IH [OF this] obtain "is" new where
          *: "res = acc @ new" "subseq is rest" "list_all2 (uploaded_result s1 waveform) is new"
          by blast
        from *(2) have "subseq is (i # rest)" by (rule list_emb_Cons)
        moreover have "list_all2 (uploaded_result s waveform) is new"
          using *(3) uploaded_result_cong [OF cfg] by (simp add: list_all2_conv_all_nth)
        ultimately show ?thesis using *(1) by blast
      next
        case nonempty: False
        show ?thesis
        proof (cases "sample_rate s1 = 0")
          case True
          with Cons.prems \<open>detect_speech_energy s ?chunk\<close> pac Inr nonempty show ?thesis
            by (simp add: Let_def)
        next
          case False
          let ?r = "(of_int i / of_int (sample_rate s1), t)"
          from Cons.prems \<open>detect_speech_energy s ?chunk\<close> pac Inr nonempty False
          have "uploaded_loop waveform rest s1 (acc @ [?r]) = (s', Inr res)"
            by (simp add: Let_def)
          from Cons.IH [OF this] obtain "is" new where
            *: "res = (acc @ [?r]) @ new" "subseq is rest"
               "list_all2 (uploaded_result s1 waveform) is new"
            by blast
          have rate: "sample_rate s1 = sample_rate s" using cfg by (simp add: same_config_def)
          have here: "uploaded_result s waveform i ?r"
            using pac Inr nonempty by (simp add: uploaded_result_def rate)
          have "list_all2 (uploaded_result s waveform) is new"
            using *(3) uploaded_result_cong [OF cfg] by (simp add: list_all2_conv_all_nth)
          with here have "list_all2 (uploaded_result s waveform) (i # is) (?r # new)" by simp
          moreover have "subseq (i # is) (i # rest)" using *(2) by (rule subseq_Cons2)
          moreover have "res = acc @ (?r # new)" using *(1) by simp
          ultimately show ?thesis by blast
        qed
      qed
    qed
  qed
qed

lemma range_up_lower: "x \<in> set (range_up i stop d) \<Longrightarrow> i \<le> x"
proof (induction i stop d rule: range_up.induct)
  case (1 i stop d)
  show ?case
  proof (cases "0 < d \<and> i < stop")
    case True
    with "1.prems" have "x = i \<or> x \<in> set (range_up (i + d) stop d)"
      by (subst (asm) range_up.simps) simp
    then show ?thesis using "1.IH" [OF True] True by auto
  next
    case False
    with "1.prems" show ?thesis by (subst (asm) range_up.simps) simp
  qed
qed

lemma range_up_sorted: "sorted_wrt (<) (range_up i stop d)"
proof (induction i stop d rule: range_up.induct)
  case (1 i stop d)
  show ?case
  proof (cases "0 < d \<and> i < stop")
    case True
    have "\<forall>x \<in> set (range_up (i + d) stop d). i < x"
      using range_up_lower [of _ "i + d" stop d] True by fastforce
    then show ?thesis
      using "1.IH" [OF True] True by (subst range_up.simps) simp
  next
    case False
    then show ?thesis by (subst range_up.simps) auto
  qed
qed

lemma range_up_length:
  "0 < d \<Longrightarrow>
   int (length (range_up i stop d)) = (if stop \<le> i then 0 else (stop - i - 1) div d + 1)"
proof (induction i stop d rule: range_up.induct)
  case (1 i stop d)
  show ?case
  proof (cases "i < stop")
    case False
    with "1.prems" show ?thesis by (subst range_up.simps) simp
  next
    case True
    with "1.prems" have cond: "0 < d \<and> i < stop" by simp
    have unfold: "range_up i stop d = i # range_up (i + d) stop d"
      using cond by (subst range_up.simps) simp
    note IH = "1.IH" [OF cond "1.prems"]
    show ?thesis
    proof (cases "stop \<le> i + d")
      case True
      have "0 \<le> stop - i - 1" "stop - i - 1 < d" using cond True by simp_all
      then have "(stop - i - 1) div d = 0" by (rule div_pos_pos_trivial)
      with IH True cond show ?thesis by (simp add: unfold)
    next
      case False
      have "stop - i - 1 = (stop - (i + d) - 1) + d" by simp
      then have "(stop - i - 1) div d = (stop - (i + d) - 1) div d + 1"
        using "1.prems" by (metis div_add_self2 less_irrefl)
      with IH False cond show ?thesis by (simp add: unfold)
    qed
  qed
qed

lemma realtime_window_count:
  assumes "overlap_size s < chunk_size s"
  shows "\<exists>ws. realtime_windows s waveform = Inr ws \<and>
           int (length ws) =
             (let n = int (length waveform) - chunk_size s; d = chunk_size s - overlap_size s
              in if 0 \<le> n \<and> d dvd n then max 0 (n div d + 1) - 1 else max 0 (n div d + 1))"
proof -
  define n where "n = int (length waveform) - chunk_size s"
  define d where "d = chunk_size s - overlap_size s"
  have d: "0 < d" using assms by (simp add: d_def)
  have offs: "realtime_offsets s waveform = Inr (range_up 0 n d)"
    using d by (simp add: realtime_offsets_def py_range_def n_def d_def)
  have len: "int (length (range_up 0 n d)) = (if n \<le> 0 then 0 else (n - 1) div d + 1)"
    using range_up_length [OF d, of 0 n] by simp
  have "(if n \<le> 0 then 0 else (n - 1) div d + 1)
          = (if 0 \<le> n \<and> d dvd n then max 0 (n div d + 1) - 1 else max 0 (n div d + 1))"
  proof (cases "n \<le> 0")
    case True
    show ?thesis
    proof (cases "n = 0")
      case True
      then show ?thesis by simp
    next
      case False
      with True have neg: "n < 0" by simp
      then have "n div d < 0" using d by (simp add: div_neg_pos_less0)
      with neg show ?thesis by simp
    qed
  next
    case False
    then have pos: "0 < n" by simp
    then have nn: "0 \<le> n div d" using d by (simp add: pos_imp_zdiv_nonneg_iff)
    show ?thesis
    proof (cases "d dvd n")
      case True
      then obtain k where k: "n = d * k" by (auto simp: dvd_def)
      with pos d have kpos: "0 < k" by (simp add: zero_less_mult_iff)
      have e1: "n - 1 = d * (k - 1) + (d - 1)" by (simp add: k algebra_simps)
      have e2: "(d * (k - 1) + (d - 1)) div d = k - 1"
        using d by (simp add: div_pos_pos_trivial)
      have "(n - 1) div d = k - 1" unfolding e1 by (rule e2)
      moreover have "n div d = k" using d k by simp
      ultimately show ?thesis using pos kpos True by simp
    next
      case False
      have "n = d * (n div d) + n mod d" by simp
      moreover have "0 < n mod d" using False d
        by (metis dvd_eq_mod_eq_0 less_le pos_mod_sign)
      moreover have "n mod d < d" using d by simp
      ultimately have e1: "n - 1 = d * (n div d) + (n mod d - 1)"
        and r: "0 \<le> n mod d - 1" "n mod d - 1 < d"
        by simp_all
      have e2: "(d * (n div d) + (n mod d - 1)) div d = n div d"
        using d r by (simp add: div_pos_pos_trivial)
      have "(n - 1) div d = n div d" unfolding e1 by (rule e2)
      with pos nn False show ?thesis by simp
    qed
  qed
  with len have "int (length (range_up 0 n d))
      = (if 0 \<le> n \<and> d dvd n then max 0 (n div d + 1) - 1 else max 0 (n div d + 1))" by simp
  then show ?thesis
    by (simp add: realtime_windows_def offs Let_def flip: n_def d_def)
qed

section \<open>The worker thread\<close>

lemma published_by_eq:
  "published_by s waveform i =
     (let chunk = py_slice waveform i (i + chunk_size s)
      in if detect_speech_energy s chunk then
           (case snd (process_audio_chunk s chunk) of
              Inl e \<Rightarrow> []
            | Inr transcription \<Rightarrow> if py_strip transcription \<noteq> [] then [Str transcription] else [])
         else [])"
  unfolding published_by_def by (subst realtime_body_queue) simp

lemma realtime_body_published:
  "result_queue (fst (realtime_body waveform i s)) = result_queue s @ published_by s waveform i"
  by (simp add: published_by_eq realtime_body_queue)

lemma published_by_cong:
  assumes "same_config s s'"
  shows "published_by s' waveform i = published_by s waveform i"
proof -
  have "chunk_size s' = chunk_size s" using assms by (simp add: same_config_def)
  then show ?thesis
    using process_audio_chunk_cong [OF assms, of "py_slice waveform i (i + chunk_size s)"]
      detect_speech_energy_cong [OF assms, of "py_slice waveform i (i + chunk_size s)"]
    by (simp add: published_by_eq Let_def)
qed

lemma published_by_Str:
  assumes "v \<in> set (published_by s waveform i)"
  shows "\<exists>t. v = Str t \<and> py_strip t \<noteq> []"
proof -
  let ?chunk = "py_slice waveform i (i + chunk_size s)"
  from assms have speech: "detect_speech_energy s ?chunk"
    by (cases "detect_speech_energy s ?chunk") (simp_all add: published_by_eq Let_def)
  show ?thesis
  proof (cases "snd (process_audio_chunk s ?chunk)")
    case (Inl e)
    with assms speech show ?thesis by (simp add: published_by_eq Let_def)
  next
    case (Inr t)
    with assms speech show ?thesis
      by (cases "py_strip t = []") (simp_all add: published_by_eq Let_def)
  qed
qed

lemma realtime_offsets_cong:
  "same_config s s' \<Longrightarrow> realtime_offsets s' waveform = realtime_offsets s waveform"
  by (simp add: realtime_offsets_def same_config_def)

lemma step_flag_down:
  "\<not> is_streaming (streamer sys) \<Longrightarrow> \<not> is_streaming (streamer (step waveform a sys))"
proof (cases a)
  case WorkerStep
  assume "\<not> is_streaming (streamer sys)"
  then show ?thesis
    using WorkerStep realtime_body_flag
    by (auto simp: worker_step_def split: pc.splits sum.splits list.splits prod.splits option.splits)
       (metis fst_conv)+
next
  case StopStreaming
  then show ?thesis by (simp add: stop_streaming_def)
next
  case Poll
  assume "\<not> is_streaming (streamer sys)"
  then show ?thesis
    using Poll by (auto simp: get_latest_transcription_def split: list.splits)
qed


lemma worker_step_InBody:
  "worker_pc sys = InBody i \<Longrightarrow>
   streamer (worker_step waveform sys) = fst (realtime_body waveform i (streamer sys)) \<and>
   pending (worker_step waveform sys) = pending sys \<and>
   observed (worker_step waveform sys) = observed sys \<and>
   worker_pc (worker_step waveform sys) =
     (case snd (realtime_body waveform i (streamer sys)) of None \<Rightarrow> AtLoopHead | Some e \<Rightarrow> Died e)"
  by (cases "realtime_body waveform i (streamer sys)")
     (simp add: worker_step_def split: option.splits)

lemma worker_step_other:
  "\<forall>i. worker_pc sys \<noteq> InBody i \<Longrightarrow>
   streamer (worker_step waveform sys) = streamer sys \<and>
   observed (worker_step waveform sys) = observed sys"
  by (cases "worker_pc sys")
     (simp_all add: worker_step_def split: sum.splits list.splits)

lemma worker_step_stopped_pc:
  "\<not> is_streaming (streamer sys) \<Longrightarrow> \<forall>i. worker_pc (worker_step waveform sys) \<noteq> InBody i"
  by (cases "worker_pc sys"; cases "realtime_body waveform (case worker_pc sys of InBody i \<Rightarrow> i | _ \<Rightarrow> 0) (streamer sys)")
     (simp_all add: worker_step_def split: sum.splits list.splits option.splits)

lemma step_other_pc:
  "a \<noteq> WorkerStep \<Longrightarrow>
   worker_pc (step waveform a sys) = worker_pc sys \<and>
   pending (step waveform a sys) = pending sys \<and>
   model_calls (streamer (step waveform a sys)) = model_calls (streamer sys) \<and>
   same_config (streamer sys) (streamer (step waveform a sys))"
  by (cases a)
     (simp_all add: stop_streaming_def get_latest_transcription_def same_config_def
        split: list.splits)

lemma body_calls_bound:
  "length (model_calls (fst (realtime_body waveform i s))) \<le> length (model_calls s) + 1"
  by (simp add: realtime_body_calls Let_def)

lemma run_stopped_calls:
  assumes "\<not> is_streaming (streamer sys)"
  shows "length (model_calls (streamer (run waveform acts sys)))
           \<le> length (model_calls (streamer sys)) + (case worker_pc sys of InBody i \<Rightarrow> 1 | _ \<Rightarrow> 0) \<and>
         ((\<forall>i. worker_pc sys \<noteq> InBody i) \<longrightarrow>
            model_calls (streamer (run waveform acts sys)) = model_calls (streamer sys))"
  using assms
proof (induction acts arbitrary: sys)
  case Nil
  then show ?case by (simp split: pc.splits)
next
  case (Cons a acts)
  let ?sys1 = "step waveform a sys"
  have down: "\<not> is_streaming (streamer ?sys1)"
    using Cons.prems by (rule step_flag_down)
  note IH = Cons.IH [OF down]
  show ?case
  proof (cases "a = WorkerStep")
    case False
    from step_other_pc [OF False, of waveform sys]
    have "worker_pc ?sys1 = worker_pc sys"
      and "model_calls (streamer ?sys1) = model_calls (streamer sys)" by simp_all
    with IH show ?thesis by simp
  next
    case True
    then have sys1: "?sys1 = worker_step waveform sys" by simp
    have nobody: "\<forall>i. worker_pc ?sys1 \<noteq> InBody i"
      unfolding sys1 using Cons.prems by (rule worker_step_stopped_pc)
    with IH have after: "model_calls (streamer (run waveform acts ?sys1)) = model_calls (streamer ?sys1)"
      by blast
    show ?thesis
    proof (cases "\<exists>i. worker_pc sys = InBody i")
      case True
      then obtain i where i: "worker_pc sys = InBody i" by blast
      have "streamer ?sys1 = fst (realtime_body waveform i (streamer sys))"
        unfolding sys1 using worker_step_InBody [OF i] by blast
      then have "length (model_calls (streamer ?sys1)) \<le> length (model_calls (streamer sys)) + 1"
        using body_calls_bound [of waveform i "streamer sys"] by simp
      with after i show ?thesis by simp
    next
      case False
      then have no: "\<forall>i. worker_pc sys \<noteq> InBody i" by blast
      have "streamer ?sys1 = streamer sys"
        unfolding sys1 using worker_step_other [OF no] by blast
      with after no show ?thesis by (simp split: pc.splits)
    qed
  qed
qed

lemma worker_step_stopped_exit:
  assumes "\<not> is_streaming (streamer sys)"
  shows "(worker_pc sys = AtLoopHead \<longrightarrow> worker_pc (worker_step waveform sys) = Finished) \<and>
         (exited (worker_pc sys) \<longrightarrow> exited (worker_pc (worker_step waveform sys))) \<and>
         (worker_pc (worker_step waveform sys) = AtLoopHead \<or> exited (worker_pc (worker_step waveform sys)))"
  using assms
  by (cases "worker_pc sys"; cases "realtime_body waveform (case worker_pc sys of InBody i \<Rightarrow> i | _ \<Rightarrow> 0) (streamer sys)")
     (simp_all add: worker_step_def split: sum.splits list.splits option.splits)

lemma run_stopped_exit:
  assumes "\<not> is_streaming (streamer sys)"
  shows "(exited (worker_pc sys) \<longrightarrow> exited (worker_pc (run waveform acts sys))) \<and>
         (worker_pc sys = AtLoopHead \<and> 1 \<le> count_list acts WorkerStep \<longrightarrow>
            exited (worker_pc (run waveform acts sys))) \<and>
         (2 \<le> count_list acts WorkerStep \<longrightarrow> exited (worker_pc (run waveform acts sys)))"
  using assms
proof (induction acts arbitrary: sys)
  case Nil
  then show ?case by simp
next
  case (Cons a acts)
  let ?sys1 = "step waveform a sys"
  have down: "\<not> is_streaming (streamer ?sys1)"
    using Cons.prems by (rule step_flag_down)
  note IH = Cons.IH [OF down]
  show ?case
  proof (cases "a = WorkerStep")
    case False
    from step_other_pc [OF False, of waveform sys]
    have "worker_pc ?sys1 = worker_pc sys" by simp
    with IH False show ?thesis by simp
  next
    case True
    then have sys1: "?sys1 = worker_step waveform sys" by simp
    note ws = worker_step_stopped_exit [OF Cons.prems, of waveform, folded sys1]
    show ?thesis
      using IH ws True by auto
  qed
qed

lemma run_flag_down:
  "\<not> is_streaming (streamer sys) \<Longrightarrow> \<not> is_streaming (streamer (run waveform acts sys))"
  by (induction acts arbitrary: sys) (simp_all add: step_flag_down del: step.simps)

lemma invariant_poll:
  assumes "worker_invariant s0 waveform offsets q0 sys"
  shows "worker_invariant s0 waveform offsets q0 (step waveform Poll sys)"
proof (cases "result_queue (streamer sys)")
  case Nil
  with assms show ?thesis
    by (simp add: worker_invariant_def get_latest_transcription_def received_def
        cong: pc.case_cong)
next
  case (Cons v rest)
  with assms have "v \<noteq> PyNone" by (auto simp: worker_invariant_def)
  with assms Cons show ?thesis
    by (simp add: worker_invariant_def get_latest_transcription_def received_def same_config_def
        cong: pc.case_cong)
qed

lemma invariant_stop:
  assumes "worker_invariant s0 waveform offsets q0 sys"
  shows "worker_invariant s0 waveform offsets q0 (step waveform StopStreaming sys)"
  using assms
  by (simp add: worker_invariant_def stop_streaming_def received_def same_config_def
      cong: pc.case_cong)

lemma invariant_worker:
  assumes offs: "realtime_offsets s0 waveform = Inr offsets"
    and inv: "worker_invariant s0 waveform offsets q0 sys"
  shows "worker_invariant s0 waveform offsets q0 (worker_step waveform sys)"
proof -
  from inv have cfg: "same_config s0 (streamer sys)"
    and none: "PyNone \<notin> set (result_queue (streamer sys))"
    by (simp_all add: worker_invariant_def)
  from inv obtain "done" where
    q: "received sys @ result_queue (streamer sys) = q0 @ concat (map (published_by s0 waveform) done)"
    and pc: "case worker_pc sys of
           NotStarted \<Rightarrow> done = []
         | AtLoopHead \<Rightarrow> done @ pending sys = offsets
         | InBody i \<Rightarrow> done @ i # pending sys = offsets
         | Finished \<Rightarrow> prefix done offsets
         | Died e \<Rightarrow> prefix done offsets"
    unfolding worker_invariant_def by blast
  show ?thesis
  proof (cases "worker_pc sys")
    case NotStarted
    have "realtime_offsets (streamer sys) waveform = Inr offsets"
      using realtime_offsets_cong [OF cfg] offs by simp
    with NotStarted cfg none q pc show ?thesis
      by (auto simp: worker_invariant_def worker_step_def received_def)
  next
    case AtLoopHead
    with pc have split: "done @ pending sys = offsets" by simp
    show ?thesis
    proof (cases "pending sys")
      case Nil
      with AtLoopHead cfg none q split show ?thesis
        by (auto simp: worker_invariant_def worker_step_def received_def)
    next
      case (Cons i rest)
      with split have "prefix done offsets" by (auto simp: prefix_def)
      with Cons AtLoopHead cfg none q split show ?thesis
        by (auto simp: worker_invariant_def worker_step_def received_def)
    qed
  next
    case (InBody i)
    with pc have split: "done @ i # pending sys = offsets" by simp
    let ?s' = "fst (realtime_body waveform i (streamer sys))"
    note ws = worker_step_InBody [OF InBody, of waveform]
    have cfg': "same_config s0 ?s'"
      using cfg realtime_body_config [of "streamer sys" waveform i] by (rule same_config_trans)
    have pub: "published_by (streamer sys) waveform i = published_by s0 waveform i"
      using cfg by (rule published_by_cong)
    have queue: "result_queue ?s' = result_queue (streamer sys) @ published_by s0 waveform i"
      by (simp add: realtime_body_published pub)
    have none': "PyNone \<notin> set (result_queue ?s')"
      using none published_by_Str [of PyNone s0 waveform i] by (auto simp: queue)
    have rec: "received (worker_step waveform sys) = received sys"
      using ws by (simp add: received_def)
    have q': "received (worker_step waveform sys) @ result_queue ?s'
                = q0 @ concat (map (published_by s0 waveform) (done @ [i]))"
      using q by (simp add: rec queue)
    have pre: "prefix (done @ [i]) offsets"
      using split by (auto simp: prefix_def)
    have full: "(done @ [i]) @ pending (worker_step waveform sys) = offsets"
      using split ws by simp
    have pc': "case worker_pc (worker_step waveform sys) of
           NotStarted \<Rightarrow> done @ [i] = []
         | AtLoopHead \<Rightarrow> (done @ [i]) @ pending (worker_step waveform sys) = offsets
         | InBody j \<Rightarrow> (done @ [i]) @ j # pending (worker_step waveform sys) = offsets
         | Finished \<Rightarrow> prefix (done @ [i]) offsets
         | Died e \<Rightarrow> prefix (done @ [i]) offsets"
      using ws pre full by (cases "snd (realtime_body waveform i (streamer sys))") simp_all
    show ?thesis
      unfolding worker_invariant_def
      using cfg' none' q' pc' ws by (intro conjI exI [of _ "done @ [i]"]) simp_all
  next
    case Finished
    with inv show ?thesis by (simp add: worker_step_def)
  next
    case (Died e)
    with inv show ?thesis by (simp add: worker_step_def)
  qed
qed

lemma invariant_run:
  assumes "realtime_offsets s0 waveform = Inr offsets"
    and "worker_invariant s0 waveform offsets q0 sys"
  shows "worker_invariant s0 waveform offsets q0 (run waveform acts sys)"
  using assms(2)
proof (induction acts arbitrary: sys)
  case Nil
  then show ?case by simp
next
  case (Cons a acts)
  have "worker_invariant s0 waveform offsets q0 (step waveform a sys)"
  proof (cases a)
    case WorkerStep
    then show ?thesis using invariant_worker [OF assms(1) Cons.prems] by simp
  next
    case StopStreaming
    then show ?thesis using invariant_stop [OF Cons.prems] by simp
  next
    case Poll
    then show ?thesis using invariant_poll [OF Cons.prems] by simp
  qed
  then show ?case using Cons.IH by simp
qed

lemma invariant_start:
  assumes "PyNone \<notin> set (result_queue s)"
  shows "worker_invariant s waveform offsets (result_queue s) (simulate_streaming_from_file s)"
  using assms
  by (simp add: worker_invariant_def simulate_streaming_from_file_def received_def same_config_def)

lemma invariant_prefix:
  assumes "worker_invariant s0 waveform offsets q0 sys"
  shows "prefix (received sys @ result_queue (streamer sys))
           (q0 @ concat (map (published_by s0 waveform) offsets))"
proof -
  from assms obtain "done" where
    q: "received sys @ result_queue (streamer sys) = q0 @ concat (map (published_by s0 waveform) done)"
    and pc: "case worker_pc sys of
           NotStarted \<Rightarrow> done = []
         | AtLoopHead \<Rightarrow> done @ pending sys = offsets
         | InBody i \<Rightarrow> done @ i # pending sys = offsets
         | Finished \<Rightarrow> prefix done offsets
         | Died e \<Rightarrow> prefix done offsets"
    unfolding worker_invariant_def by blast
  from pc have "prefix done offsets"
    by (cases "worker_pc sys") (auto simp: prefix_def)
  then obtain rest where "offsets = done @ rest" by (auto simp: prefix_def)
  then show ?thesis by (simp add: q)
qed


lemma simulate_exact:
  "case realtime_offsets s waveform of
     Inl e \<Rightarrow> result_queue (fst (simulate_realtime_processing s waveform)) = result_queue s
   | Inr offsets \<Rightarrow>
       (\<exists>k \<le> length offsets.
          result_queue (fst (simulate_realtime_processing s waveform))
            = result_queue s @ map Str (concat (map (texts_at s waveform) (take k offsets))) \<and>
          (is_streaming s \<and> snd (simulate_realtime_processing s waveform) = None
             \<longrightarrow> k = length offsets))"
proof (cases "realtime_offsets s waveform")
  case (Inl e)
  then show ?thesis by (simp add: simulate_realtime_processing_def)
next
  case (Inr offsets)
  then show ?thesis
    using realtime_loop_exact [of offsets waveform s]
    by (simp add: simulate_realtime_processing_def)
qed

lemma texts_at_sound:
  assumes "t \<in> set (texts_at s waveform i)"
  shows "detect_speech_energy s (py_slice waveform i (i + chunk_size s)) \<and>
         snd (process_audio_chunk s (py_slice waveform i (i + chunk_size s))) = Inr t \<and>
         py_strip t \<noteq> []"
proof -
  let ?chunk = "py_slice waveform i (i + chunk_size s)"
  from assms have speech: "detect_speech_energy s ?chunk"
    by (cases "detect_speech_energy s ?chunk") (simp_all add: texts_at_def Let_def)
  show ?thesis
  proof (cases "snd (process_audio_chunk s ?chunk)")
    case (Inl e)
    with assms speech show ?thesis by (simp add: texts_at_def Let_def)
  next
    case (Inr u)
    with assms speech show ?thesis
      by (cases "py_strip u = []") (simp_all add: texts_at_def Let_def)
  qed
qed

lemma texts_at_complete:
  assumes "detect_speech_energy s (py_slice waveform i (i + chunk_size s))"
    and "snd (process_audio_chunk s (py_slice waveform i (i + chunk_size s))) = Inr t"
    and "py_strip t \<noteq> []"
  shows "texts_at s waveform i = [t]"
  using assms by (simp add: texts_at_def Let_def)

lemma texts_at_length: "length (texts_at s waveform i) \<le> 1"
  by (simp add: texts_at_def Let_def split: sum.splits)




lemma live_streamer_fields:
  "chunk_size live_streamer = 4" "overlap_size live_streamer = 2"
  "sample_rate live_streamer = 16000" "tokenizer live_streamer = CharTokenizer_init"
  "model live_streamer = hi_model" "result_queue live_streamer = []"
  "is_streaming live_streamer = True" "model_calls live_streamer = []"
  by (simp_all add: live_streamer_def demo_streamer_fields)

lemma uploaded_offsets_sorted:
  assumes "uploaded_offsets s waveform = Inr offsets"
  shows "sorted_wrt (<) offsets"
proof -
  let ?stop = "int (length waveform) - chunk_size s"
  let ?d = "chunk_size s div 2"
  from assms have d: "?d \<noteq> 0"
    by (auto simp: uploaded_offsets_def py_range_def Let_def split: if_splits)
  show ?thesis
  proof (cases "0 < ?d")
    case True
    with assms have "offsets = range_up 0 ?stop ?d"
      by (simp add: uploaded_offsets_def py_range_def Let_def)
    then show ?thesis by (simp add: range_up_sorted)
  next
    case False
    with d have neg: "?d < 0" by simp
    then have "chunk_size s < 0" by linarith
    then have "\<not> ?stop < 0" by simp
    then have "range_down 0 ?stop ?d = []" by (subst range_down.simps) simp
    with assms neg have "offsets = []"
      by (simp add: uploaded_offsets_def py_range_def Let_def)
    then show ?thesis by simp
  qed
qed

lemma uploaded_timestamps_sorted:
  assumes "0 < sample_rate s" and "sorted_wrt (<) is"
    and "list_all2 (uploaded_result s waveform) is results"
  shows "sorted_wrt (<) (map fst results)"
proof -
  have "map fst results = map (\<lambda>i. of_int i / of_int (sample_rate s)) is"
    using assms(3)
    by (induction "is" results rule: list_all2_induct) (simp_all add: uploaded_result_def)
  moreover have "sorted_wrt (<) (map (\<lambda>i. (of_int i :: rat) / of_int (sample_rate s)) is)"
    using assms(2)
  proof (rule sorted_wrt_map_mono)
    fix x y :: int
    assume "x < y"
    then show "(of_int x :: rat) / of_int (sample_rate s) < of_int y / of_int (sample_rate s)"
      using assms(1) by (simp add: divide_strict_right_mono)
  qed
  ultimately show ?thesis by simp
qed

lemma process_uploaded_audio_results:
  assumes "snd (process_uploaded_audio s waveform) = Inr results"
  shows "\<exists>offsets is. uploaded_offsets s waveform = Inr offsets \<and> subseq is offsets \<and>
           list_all2 (uploaded_result s waveform) is results"
proof (cases "uploaded_offsets s waveform")
  case (Inl e)
  with assms show ?thesis by (simp add: process_uploaded_audio_def)
next
  case (Inr offsets)
  obtain s' where "uploaded_loop waveform offsets s [] = (s', Inr results)"
    using assms Inr by (cases "uploaded_loop waveform offsets s []") (simp add: process_uploaded_audio_def)
  from uploaded_loop_results [OF this] Inr show ?thesis by auto
qed

section \<open>The generator and the default configuration\<close>

lemma microphone_loop_exact:
  "microphone_loop waveform offsets s acc = (s', ys, r) \<Longrightarrow>
   \<exists>k \<le> length offsets.
     ys = acc @ concat (map (texts_at s waveform) (take k offsets)) \<and>
     (r = None \<longrightarrow> k = length offsets)"
proof (induction offsets arbitrary: s acc)
  case Nil
  then show ?case by (intro exI [of _ 0]) simp
next
  case (Cons i rest)
  let ?chunk = "py_slice waveform i (i + chunk_size s)"
  show ?case
  proof (cases "detect_speech_energy s ?chunk")
    case False
    then have here: "texts_at s waveform i = []" by (simp add: texts_at_def)
    from False Cons.prems have "microphone_loop waveform rest s acc = (s', ys, r)"
      by (simp add: Let_def)
    from Cons.IH [OF this] obtain k where
      k: "k \<le> length rest" "ys = acc @ concat (map (texts_at s waveform) (take k rest))"
        "r = None \<longrightarrow> k = length rest" by blast
    show ?thesis
      using k(1,3) by (intro exI [of _ "Suc k"]) (simp add: k(2) here)
  next
    case True
    obtain s1 res where pac: "process_audio_chunk s ?chunk = (s1, res)"
      by (cases "process_audio_chunk s ?chunk")
    have cfg: "same_config s s1"
      using process_audio_chunk_config [of s ?chunk] pac by simp
    have same: "texts_at s1 waveform = texts_at s waveform"
      using cfg by (rule texts_at_cong)
    show ?thesis
    proof (cases res)
      case (Inl e)
      with Cons.prems True pac have "ys = acc" and "r \<noteq> None"
        by (auto simp: Let_def)
      then show ?thesis by (intro exI [of _ 0]) simp
    next
      case (Inr t)
      show ?thesis
      proof (cases "py_strip t = []")
        case empty: True
        have here: "texts_at s waveform i = []"
          using True pac Inr empty by (simp add: texts_at_def)
        from Cons.prems True pac Inr empty
        have "microphone_loop waveform rest s1 acc = (s', ys, r)"
          by (simp add: Let_def)
        from Cons.IH [OF this] obtain k where
          k: "k \<le> length rest" "ys = acc @ concat (map (texts_at s1 waveform) (take k rest))"
            "r = None \<longrightarrow> k = length rest" by blast
        show ?thesis
          using k(1,3) by (intro exI [of _ "Suc k"]) (simp add: k(2) here same)
      next
        case nonempty: False
        have here: "texts_at s waveform i = [t]"
          using True pac Inr nonempty by (simp add: texts_at_def)
        from Cons.prems True pac Inr nonempty
        have "microphone_loop waveform rest s1 (acc @ [t]) = (s', ys, r)"
          by (simp add: Let_def)
        from Cons.IH [OF this] obtain k where
          k: "k \<le> length rest"
            "ys = (acc @ [t]) @ concat (map (texts_at s1 waveform) (take k rest))"
            "r = None \<longrightarrow> k = length rest" by blast
        show ?thesis
          using k(1,3) by (intro exI [of _ "Suc k"]) (simp add: k(2) here same)
      qed
    qed
  qed
qed

lemma halfstep_offsets_sorted:
  assumes "py_range 0 (int n - c) (c div 2) = Inr offsets"
  shows "sorted_wrt (<) offsets"
proof -
  from assms have d: "c div 2 \<noteq> 0"
    by (auto simp: py_range_def split: if_splits)
  show ?thesis
  proof (cases "0 < c div 2")
    case True
    with assms have "offsets = range_up 0 (int n - c) (c div 2)"
      by (simp add: py_range_def)
    then show ?thesis by (simp add: range_up_sorted)
  next
    case False
    with d have neg: "c div 2 < 0" by simp
    then have "c < 0" by linarith
    then have "\<not> int n - c < 0" by simp
    then have "range_down 0 (int n - c) (c div 2) = []" by (subst range_down.simps) simp
    with assms neg have "offsets = []"
      by (simp add: py_range_def)
    then show ?thesis by simp
  qed
qed

lemma process_from_microphone_data_exact:
  "case microphone_offsets s waveform of
     Inl e \<Rightarrow> fst (snd (process_from_microphone_data s waveform)) = []
   | Inr offsets \<Rightarrow>
       sorted_wrt (<) offsets \<and>
       (\<exists>k \<le> length offsets.
          fst (snd (process_from_microphone_data s waveform))
            = concat (map (texts_at s waveform) (take k offsets)) \<and>
          (snd (snd (process_from_microphone_data s waveform)) = None \<longrightarrow> k = length offsets))"
proof -
  let ?s1 = "s\<lparr>is_streaming := True\<rparr>"
  have cfg: "same_config s ?s1" by (simp add: same_config_def)
  have offs: "microphone_offsets ?s1 waveform = microphone_offsets s waveform"
    by (simp add: microphone_offsets_def)
  show ?thesis
  proof (cases "microphone_offsets s waveform")
    case (Inl e)
    then show ?thesis by (simp add: process_from_microphone_data_def offs)
  next
    case (Inr offsets)
    obtain s' ys r where run: "microphone_loop waveform offsets ?s1 [] = (s', ys, r)"
      by (cases "microphone_loop waveform offsets ?s1 []") auto
    then have res: "process_from_microphone_data s waveform = (s', ys, r)"
      using Inr by (simp add: process_from_microphone_data_def offs)
    from microphone_loop_exact [OF run] obtain k where
      k: "k \<le> length offsets" "ys = concat (map (texts_at ?s1 waveform) (take k offsets))"
        "r = None \<longrightarrow> k = length offsets" by auto
    have sorted: "sorted_wrt (<) offsets"
      using Inr unfolding microphone_offsets_def by (rule halfstep_offsets_sorted)
    have "ys = concat (map (texts_at s waveform) (take k offsets))"
      using k(2) by (simp add: texts_at_cong [OF cfg])
    with k(1,3) sorted show ?thesis using Inr by (auto simp: res)
  qed
qed

lemma default_streamer_fields:
  "chunk_size default_streamer = 5120" "overlap_size default_streamer = 2560"
  by (simp_all add: default_streamer_def RealTimeStreamer_init_def py_int_def)

lemma default_offsets:
  "realtime_offsets default_streamer (replicate 10240 0) = Inr [0, 2560]"
  "realtime_offsets default_streamer (replicate 5120 0) = Inr []"
  by (simp_all add: realtime_offsets_def default_streamer_fields py_range_def range_up.simps)

section \<open>The thread computes the method\<close>

text \<open>
  When only the worker runs, the thread machine ends in the state that
  \<open>simulate_realtime_processing\<close> returns for the streamer with the flag raised, and it
  ends after at most two steps for every offset and two more.
\<close>

lemma worker_step_exited: "exited (worker_pc sys) \<Longrightarrow> worker_step waveform sys = sys"
  by (cases "worker_pc sys") (simp_all add: worker_step_def)

lemma run_worker_exited:
  "exited (worker_pc sys) \<Longrightarrow> run waveform (replicate k WorkerStep) sys = sys"
  by (induction k) (simp_all add: worker_step_exited)

lemma loop_machine:
  assumes "worker_pc sys = AtLoopHead" and "pending sys = offsets"
    and "2 * length offsets + 1 \<le> k"
  shows "streamer (run waveform (replicate k WorkerStep) sys)
           = fst (realtime_loop waveform offsets (streamer sys)) \<and>
         worker_pc (run waveform (replicate k WorkerStep) sys)
           = (case snd (realtime_loop waveform offsets (streamer sys)) of
                None \<Rightarrow> Finished | Some e \<Rightarrow> Died e)"
  using assms
proof (induction offsets arbitrary: sys k)
  case Nil
  then obtain k' where k: "k = Suc k'" by (cases k) auto
  let ?sys1 = "worker_step waveform sys"
  have s1: "?sys1 = sys\<lparr>worker_pc := Finished\<rparr>"
    using Nil.prems by (simp add: worker_step_def)
  then have "exited (worker_pc ?sys1)" by simp
  then have "run waveform (replicate k' WorkerStep) ?sys1 = ?sys1" by (rule run_worker_exited)
  then show ?case by (simp add: k s1)
next
  case (Cons i rest)
  then obtain k' where k: "k = Suc k'" and k': "2 * length rest + 2 \<le> k'" by (cases k) auto
  let ?sys1 = "worker_step waveform sys"
  show ?case
  proof (cases "is_streaming (streamer sys)")
    case False
    have s1: "?sys1 = sys\<lparr>worker_pc := Finished, pending := rest\<rparr>"
      using Cons.prems False by (simp add: worker_step_def)
    then have "exited (worker_pc ?sys1)" by simp
    then have "run waveform (replicate k' WorkerStep) ?sys1 = ?sys1" by (rule run_worker_exited)
    then show ?thesis using False by (simp add: k s1)
  next
    case True
    have s1: "?sys1 = sys\<lparr>worker_pc := InBody i, pending := rest\<rparr>"
      using Cons.prems True by (simp add: worker_step_def)
    from k' obtain k'' where k'': "k' = Suc k''" and kk: "2 * length rest + 1 \<le> k''"
      by (cases k') auto
    let ?sys2 = "worker_step waveform ?sys1"
    obtain s' r where body: "realtime_body waveform i (streamer sys) = (s', r)"
      by (cases "realtime_body waveform i (streamer sys)")
    have run2: "run waveform (replicate k WorkerStep) sys = run waveform (replicate k'' WorkerStep) ?sys2"
      by (simp add: k k'')
    show ?thesis
    proof (cases r)
      case (Some e)
      have s2: "?sys2 = sys\<lparr>worker_pc := Died e, pending := rest, streamer := s'\<rparr>"
        unfolding s1 using body Some by (simp add: worker_step_def)
      then have "exited (worker_pc ?sys2)" by simp
      then have "run waveform (replicate k'' WorkerStep) ?sys2 = ?sys2" by (rule run_worker_exited)
      then show ?thesis using True body Some by (simp add: run2 s2)
    next
      case None
      have s2: "?sys2 = sys\<lparr>worker_pc := AtLoopHead, pending := rest, streamer := s'\<rparr>"
        unfolding s1 using body None by (simp add: worker_step_def)
      have "worker_pc ?sys2 = AtLoopHead" "pending ?sys2 = rest" "streamer ?sys2 = s'"
        by (simp_all add: s2)
      with Cons.IH [of ?sys2 k''] kk
      have "streamer (run waveform (replicate k'' WorkerStep) ?sys2)
              = fst (realtime_loop waveform rest s') \<and>
            worker_pc (run waveform (replicate k'' WorkerStep) ?sys2)
              = (case snd (realtime_loop waveform rest s') of None \<Rightarrow> Finished | Some e \<Rightarrow> Died e)"
        by simp
      then show ?thesis using True body None by (simp add: run2)
    qed
  qed
qed

lemma worker_thread_runs_method:
  assumes "k = (case realtime_offsets s waveform of Inl e \<Rightarrow> 1 | Inr offsets \<Rightarrow> 2 * length offsets + 2)"
    and "k \<le> n"
  shows "streamer (run waveform (replicate n WorkerStep) (simulate_streaming_from_file s))
           = fst (simulate_realtime_processing (s\<lparr>is_streaming := True\<rparr>) waveform) \<and>
         worker_pc (run waveform (replicate n WorkerStep) (simulate_streaming_from_file s))
           = (case snd (simulate_realtime_processing (s\<lparr>is_streaming := True\<rparr>) waveform) of
                None \<Rightarrow> Finished | Some e \<Rightarrow> Died e)"
proof -
  let ?live = "s\<lparr>is_streaming := True\<rparr>"
  let ?sys0 = "simulate_streaming_from_file s"
  have offs_eq: "realtime_offsets ?live waveform = realtime_offsets s waveform"
    by (simp add: realtime_offsets_def)
  from assms obtain n' where n: "n = Suc n'" by (cases n) (auto split: sum.splits)
  let ?sys1 = "worker_step waveform ?sys0"
  have run1: "run waveform (replicate n WorkerStep) ?sys0 = run waveform (replicate n' WorkerStep) ?sys1"
    by (simp add: n)
  show ?thesis
  proof (cases "realtime_offsets s waveform")
    case (Inl e)
    have s1: "?sys1 = ?sys0\<lparr>worker_pc := Died e\<rparr>"
      using Inl offs_eq by (simp add: worker_step_def simulate_streaming_from_file_def)
    have st: "streamer ?sys1 = ?live" "worker_pc ?sys1 = Died e"
      unfolding s1 by (simp_all add: simulate_streaming_from_file_def)
    from st(2) have "exited (worker_pc ?sys1)" by simp
    then have "run waveform (replicate n' WorkerStep) ?sys1 = ?sys1" by (rule run_worker_exited)
    with run1 have "run waveform (replicate n WorkerStep) ?sys0 = ?sys1" by simp
    then show ?thesis
      using st Inl offs_eq by (simp add: simulate_realtime_processing_def)
  next
    case (Inr offsets)
    have s1: "?sys1 = ?sys0\<lparr>worker_pc := AtLoopHead, pending := offsets\<rparr>"
      using Inr offs_eq by (simp add: worker_step_def simulate_streaming_from_file_def)
    have "worker_pc ?sys1 = AtLoopHead" "pending ?sys1 = offsets" "streamer ?sys1 = ?live"
      unfolding s1 by (simp_all add: simulate_streaming_from_file_def)
    moreover have "2 * length offsets + 1 \<le> n'" using assms Inr n by simp
    ultimately show ?thesis
      using loop_machine [of ?sys1 offsets n' waveform] Inr offs_eq
      by (simp add: run1 simulate_realtime_processing_def)
  qed
qed

section \<open>Claims about the tokenizer\<close>

text \<open>
  Claim C1, amended: for every text made only of vocabulary characters (space, A to Z,
  apostrophe) whose trimmed form holds no space, \<^verbatim>\<open>decode(encode(text))\<close> is the text
  upper-cased and trimmed.
\<close>

theorem decode_encode_roundtrip:
  assumes "set t \<subseteq> set vocabulary"
    and "CHR '' '' \<notin> set (py_strip (py_upper t))"
  shows "decode_encode CharTokenizer_init t = Inr (py_strip (py_upper t))"
proof -
  have up: "py_upper t = t"
    using assms(1) by (rule py_upper_vocabulary)
  have sub: "set (py_strip t) \<subseteq> set vocabulary"
    using set_py_strip assms(1) by blast
  have "filter (\<lambda>c. c \<noteq> CHR '' '') t = filter (\<lambda>c. \<not> py_isspace c) t"
    using assms(1) by (rule filter_space_vocabulary)
  also have "\<dots> = filter (\<lambda>c. \<not> py_isspace c) (py_strip t)"
    by (simp only: filter_py_strip)
  also have "\<dots> = filter (\<lambda>c. c \<noteq> CHR '' '') (py_strip t)"
    using sub by (rule filter_space_vocabulary [symmetric])
  also have "\<dots> = py_strip t"
    using assms(2) by (auto simp: up filter_id_conv)
  finally have "filter (\<lambda>c. c \<noteq> CHR '' '') t = py_strip t" .
  then show ?thesis
    using decode_encode_removes_spaces [OF assms(1)] by (simp add: up)
qed

text \<open>
  The text \<^verbatim>\<open> IT'S \<close>, with a leading and a trailing space, comes back as
  \<^verbatim>\<open>IT'S\<close>.
\<close>

theorem decode_encode_roundtrip_witness:
  "set ('' IT'' @ [apostrophe] @ ''S '') \<subseteq> set vocabulary \<and>
   CHR '' '' \<notin> set (py_strip (py_upper ('' IT'' @ [apostrophe] @ ''S ''))) \<and>
   decode_encode CharTokenizer_init ('' IT'' @ [apostrophe] @ ''S '') = Inr (''IT'' @ [apostrophe] @ ''S'')"
proof -
  have h1: "set ('' IT'' @ [apostrophe] @ ''S '') \<subseteq> set vocabulary"
    by (simp add: vocabulary_def)
  have st: "py_strip (py_upper ('' IT'' @ [apostrophe] @ ''S '')) = ''IT'' @ [apostrophe] @ ''S''"
    by (simp add: py_strip_def py_upper_def upper_char_def py_isspace_def apostrophe_def)
  have h2: "CHR '' '' \<notin> set (py_strip (py_upper ('' IT'' @ [apostrophe] @ ''S '')))"
    unfolding st by (simp add: apostrophe_def)
  from decode_encode_roundtrip [OF h1 h2] h1 h2 st show ?thesis by simp
qed

text \<open>
  Claim C1 as stated fails: the text \<^verbatim>\<open>A B\<close> uses vocabulary characters only, its
  upper-cased and trimmed form is \<^verbatim>\<open>A B\<close>, and \<^verbatim>\<open>decode(encode("A B"))\<close> is
  \<^verbatim>\<open>AB\<close>.
\<close>

theorem roundtrip_counterexample:
  "set ''A B'' \<subseteq> set (chars CharTokenizer_init) \<and>
   decode_encode CharTokenizer_init ''A B'' = Inr ''AB'' \<and>
   py_strip (py_upper ''A B'') = ''A B'' \<and>
   decode_encode CharTokenizer_init ''A B'' \<noteq> Inr (py_strip (py_upper ''A B''))"
  by (simp add: decode_encode_def encode_def decode_def CharTokenizer_init_def dict_of_def
      py_enumerate_def vocabulary_def apostrophe_def py_upper_def upper_char_def py_strip_def
      py_isspace_def)

text \<open>
  Claim C3, amended: index 0 is the blank index, the tables have exactly the 28 indices 0
  to 27, the indices other than 0 map bijectively onto A to Z and the apostrophe, and the
  two tables are inverse to each other.
\<close>

theorem vocabulary_layout:
  "blank_idx CharTokenizer_init = 0 \<and>
   vocab_size CharTokenizer_init = 28 \<and>
   dom (idx_to_char CharTokenizer_init) = {0..27} \<and>
   bij_betw (\<lambda>idx. the (idx_to_char CharTokenizer_init idx)) {1..27}
     (set ''ABCDEFGHIJKLMNOPQRSTUVWXYZ'' \<union> {apostrophe}) \<and>
   (\<forall>c idx. char_to_idx CharTokenizer_init c = Some idx \<longleftrightarrow>
             idx_to_char CharTokenizer_init idx = Some c)"
proof -
  have "dom (idx_to_char CharTokenizer_init) = {0..27}"
    by (auto simp: dom_def idx_to_char_init)
  moreover have "\<forall>c idx. char_to_idx CharTokenizer_init c = Some idx \<longleftrightarrow>
             idx_to_char CharTokenizer_init idx = Some c"
    by (auto simp: char_to_idx_init idx_to_char_init)
  moreover have "vocab_size CharTokenizer_init = 28"
    by (simp add: CharTokenizer_init_def length_vocabulary)
  ultimately show ?thesis
    using visible_bij by (simp add: blank_idx_init)
qed

text \<open>
  Claim C3 as stated fails: the space is one of the visible characters, the blank index
  maps to it, and the index of the space is the blank index, so the blank is not distinct
  from every visible character and no index other than 0 maps to the space.
\<close>

theorem blank_is_space_counterexample:
  "CHR '' '' \<in> set (chars CharTokenizer_init) \<and>
   idx_to_char CharTokenizer_init (blank_idx CharTokenizer_init) = Some (CHR '' '') \<and>
   char_to_idx CharTokenizer_init (CHR '' '') = Some (blank_idx CharTokenizer_init)"
  by (simp add: CharTokenizer_init_def dict_of_def py_enumerate_def vocabulary_def apostrophe_def)

section \<open>Claims about the decoder\<close>

text \<open>
  Claim C2, amended: the decoder has no repeat-collapse. When the chunk is long enough and
  the model and the argmax succeed, the transcription has one character for every frame
  whose argmax is a visible index (1 to 27), in frame order, so two consecutive identical
  frames give the character twice.
\<close>

theorem no_repeat_collapse:
  assumes "tokenizer s = CharTokenizer_init"
    and "chunk_size s \<le> int (length audio_chunk)"
    and "model s audio_chunk = Inr log_probs"
    and "argmax_rows log_probs = Inr predicted_ids"
  shows "snd (process_audio_chunk s audio_chunk)
           = Inr (map (\<lambda>idx. vocabulary ! nat idx)
                    (filter (\<lambda>idx. 0 < idx \<and> idx < 28) predicted_ids))"
  using assms by (simp add: process_audio_chunk_def decode_init)

text \<open>
  The frames blank, H, H, I, blank decode to \<^verbatim>\<open>HHI\<close>.
\<close>

theorem no_repeat_collapse_witness:
  "tokenizer demo_streamer = CharTokenizer_init \<and>
   chunk_size demo_streamer \<le> int (length [1, 1, 1, 1 :: sample]) \<and>
   model demo_streamer [1, 1, 1, 1] = Inr hi_frames \<and>
   argmax_rows hi_frames = Inr [0, 8, 8, 9, 0] \<and>
   snd (process_audio_chunk demo_streamer [1, 1, 1, 1]) = Inr ''HHI''"
  using no_repeat_collapse [of demo_streamer "[1, 1, 1, 1]" hi_frames "[0, 8, 8, 9, 0]"]
  by (simp add: demo_streamer_fields hi_model_def argmax_hi_frames vocabulary_def)

text \<open>
  Claim C2 as stated fails: the stub model's argmax sequence is blank, H, H, I, blank, and
  the transcription is not \<^verbatim>\<open>HI\<close>.
\<close>

theorem repeat_collapse_counterexample:
  "argmax_rows hi_frames = Inr [0, 8, 8, 9, 0] \<and>
   decode CharTokenizer_init [0, 8, 8, 9, 0] = ''HHI'' \<and>
   snd (process_audio_chunk demo_streamer [1, 1, 1, 1]) \<noteq> Inr ''HI''"
  by (simp add: argmax_hi_frames process_audio_chunk_def demo_streamer_fields hi_model_def
      decode_def CharTokenizer_init_def dict_of_def py_enumerate_def vocabulary_def
      py_strip_def py_isspace_def)

text \<open>
  Claim C10: for every chunk strictly shorter than the chunk size,
  \<^verbatim>\<open>process_audio_chunk\<close> returns the empty string and leaves the streamer as it
  was, so the model is not invoked.
\<close>

theorem short_chunk_returns_empty:
  assumes "int (length audio_chunk) < chunk_size s"
  shows "process_audio_chunk s audio_chunk = (s, Inr []) \<and>
         model_calls (fst (process_audio_chunk s audio_chunk)) = model_calls s"
  using assms by (simp add: process_audio_chunk_def)

text \<open>
  A chunk of three samples with a chunk size of four.
\<close>

theorem short_chunk_returns_empty_witness:
  "int (length [1, 1, 1 :: sample]) < chunk_size demo_streamer \<and>
   process_audio_chunk demo_streamer [1, 1, 1] = (demo_streamer, Inr []) \<and>
   model_calls (fst (process_audio_chunk demo_streamer [1, 1, 1])) = []"
  using short_chunk_returns_empty [of "[1, 1, 1]" demo_streamer]
  by (simp add: demo_streamer_fields)

section \<open>Claims about the windows and the gate\<close>

text \<open>
  Claim C4 fails on the code: the range of the loop stops before
  \<^verbatim>\<open>len(waveform) - chunk_size\<close>, so the window that ends exactly at the end of the
  samples is never produced. With the default chunk of 5120 samples and overlap of 2560
  samples, 10240 samples give the offsets 0 and 2560 and not 5120, where the claim counts
  3 windows, and 5120 samples give no window, where the claim counts 1. With 8 samples,
  chunks of 4 and an overlap of 2 the loop produces the windows at 0 and 2 and not the
  window at 4; with 4 samples it produces none.
\<close>

theorem last_full_window_dropped:
  "chunk_size default_streamer = 5120 \<and> overlap_size default_streamer = 2560 \<and>
   realtime_offsets default_streamer (replicate 10240 0) = Inr [0, 2560] \<and>
   max 0 ((10240 - 5120) div (5120 - 2560) + 1) = (3 :: int) \<and>
   realtime_offsets default_streamer (replicate 5120 0) = Inr [] \<and>
   max 0 ((5120 - 5120) div (5120 - 2560) + 1) = (1 :: int) \<and>
   chunk_size demo_streamer = 4 \<and> overlap_size demo_streamer = 2 \<and>
   length [1, 2, 3, 4, 5, 6, 7, 8 :: sample] = 8 \<and>
   realtime_offsets demo_streamer [1, 2, 3, 4, 5, 6, 7, 8] = Inr [0, 2] \<and>
   realtime_windows demo_streamer [1, 2, 3, 4, 5, 6, 7, 8] = Inr [[1, 2, 3, 4], [3, 4, 5, 6]] \<and>
   py_slice [1, 2, 3, 4, 5, 6, 7, 8 :: sample] 4 (4 + 4) = [5, 6, 7, 8] \<and>
   max 0 ((8 - 4) div (4 - 2) + 1) = (3 :: int) \<and>
   realtime_windows demo_streamer [1, 2, 3, 4] = Inr [] \<and>
   max 0 ((4 - 4) div (4 - 2) + 1) = (1 :: int)"
proof -
  have small: "chunk_size demo_streamer = 4 \<and> overlap_size demo_streamer = 2 \<and>
   length [1, 2, 3, 4, 5, 6, 7, 8 :: sample] = 8 \<and>
   realtime_offsets demo_streamer [1, 2, 3, 4, 5, 6, 7, 8] = Inr [0, 2] \<and>
   realtime_windows demo_streamer [1, 2, 3, 4, 5, 6, 7, 8] = Inr [[1, 2, 3, 4], [3, 4, 5, 6]] \<and>
   py_slice [1, 2, 3, 4, 5, 6, 7, 8 :: sample] 4 (4 + 4) = [5, 6, 7, 8] \<and>
   max 0 ((8 - 4) div (4 - 2) + 1) = (3 :: int) \<and>
   realtime_windows demo_streamer [1, 2, 3, 4] = Inr [] \<and>
   max 0 ((4 - 4) div (4 - 2) + 1) = (1 :: int)"
    by code_simp
  then show ?thesis
    by (simp add: default_streamer_fields default_offsets)
qed




section \<open>Claims about the results\<close>

text \<open>
  Claim C5, amended: the results that the worker loop puts on the result queue are, in
  loop order, the texts of the first offsets of its range (of all of them when the flag
  stays raised and nothing is raised), each one the string that
  \<^verbatim>\<open>process_audio_chunk\<close> returns for the window at its offset, for exactly the windows
  that pass the gate and whose text is not empty after trimming, at most one text for
  an offset; each is the text alone and not a pair with a timestamp. The pairs are the results of
  \<^verbatim>\<open>process_uploaded_audio\<close>: each one belongs to an offset of the batch loop, in loop
  order, its timestamp is that offset divided by the sample rate and its text is the
  transcription of the window there.
\<close>

theorem worker_publishes_text_only:
  "(case realtime_offsets s waveform of
      Inl e \<Rightarrow> result_queue (fst (simulate_realtime_processing s waveform)) = result_queue s
    | Inr offsets \<Rightarrow>
        (\<exists>k \<le> length offsets.
           result_queue (fst (simulate_realtime_processing s waveform))
             = result_queue s @ map Str (concat (map (texts_at s waveform) (take k offsets))) \<and>
           (is_streaming s \<and> snd (simulate_realtime_processing s waveform) = None
              \<longrightarrow> k = length offsets))) \<and>
   (\<forall>i. length (texts_at s waveform i) \<le> 1 \<and>
      (\<forall>t. t \<in> set (texts_at s waveform i) \<longleftrightarrow>
         detect_speech_energy s (py_slice waveform i (i + chunk_size s)) \<and>
         snd (process_audio_chunk s (py_slice waveform i (i + chunk_size s))) = Inr t \<and>
         py_strip t \<noteq> []) \<and>
      (\<forall>t \<in> set (texts_at s waveform i). \<not> is_TranscriptionResult (Str t))) \<and>
   (snd (process_uploaded_audio s waveform) = Inr results \<longrightarrow>
      (\<exists>offsets is. uploaded_offsets s waveform = Inr offsets \<and> subseq is offsets \<and>
         list_all2 (uploaded_result s waveform) is results))"
proof (intro conjI)
  show "case realtime_offsets s waveform of
      Inl e \<Rightarrow> result_queue (fst (simulate_realtime_processing s waveform)) = result_queue s
    | Inr offsets \<Rightarrow>
        (\<exists>k \<le> length offsets.
           result_queue (fst (simulate_realtime_processing s waveform))
             = result_queue s @ map Str (concat (map (texts_at s waveform) (take k offsets))) \<and>
           (is_streaming s \<and> snd (simulate_realtime_processing s waveform) = None
              \<longrightarrow> k = length offsets))"
    by (rule simulate_exact)
next
  show "\<forall>i. length (texts_at s waveform i) \<le> 1 \<and>
      (\<forall>t. t \<in> set (texts_at s waveform i) \<longleftrightarrow>
         detect_speech_energy s (py_slice waveform i (i + chunk_size s)) \<and>
         snd (process_audio_chunk s (py_slice waveform i (i + chunk_size s))) = Inr t \<and>
         py_strip t \<noteq> []) \<and>
      (\<forall>t \<in> set (texts_at s waveform i). \<not> is_TranscriptionResult (Str t))"
  proof (intro allI conjI ballI)
    fix i
    show "length (texts_at s waveform i) \<le> 1" by (rule texts_at_length)
  next
    fix i t
    show "t \<in> set (texts_at s waveform i) \<longleftrightarrow>
         detect_speech_energy s (py_slice waveform i (i + chunk_size s)) \<and>
         snd (process_audio_chunk s (py_slice waveform i (i + chunk_size s))) = Inr t \<and>
         py_strip t \<noteq> []"
      using texts_at_sound [of t s waveform i] texts_at_complete [of s waveform i t] by auto
  next
    fix i t
    show "\<not> is_TranscriptionResult (Str t)" by simp
  qed
next
  show "snd (process_uploaded_audio s waveform) = Inr results \<longrightarrow>
      (\<exists>offsets is. uploaded_offsets s waveform = Inr offsets \<and> subseq is offsets \<and>
         list_all2 (uploaded_result s waveform) is results)"
    using process_uploaded_audio_results [of s waveform results] by simp
qed

text \<open>
  The worker publishes \<^verbatim>\<open>A\<close>, \<^verbatim>\<open>C\<close>, \<^verbatim>\<open>E\<close>, the texts of the windows at the
  offsets 0, 2 and 4; the batch loop returns them with the timestamps of these offsets.
\<close>

theorem worker_publishes_text_only_witness:
  "realtime_offsets letter_streamer ramp_waveform = Inr [0, 2, 4] \<and>
   is_streaming letter_streamer \<and>
   snd (simulate_realtime_processing letter_streamer ramp_waveform) = None \<and>
   map (texts_at letter_streamer ramp_waveform) [0, 2, 4] = [[''A''], [''C''], [''E'']] \<and>
   result_queue (fst (simulate_realtime_processing letter_streamer ramp_waveform))
     = [Str ''A'', Str ''C'', Str ''E''] \<and>
   snd (process_audio_chunk letter_streamer (py_slice ramp_waveform 2 (2 + chunk_size letter_streamer)))
     = Inr ''C'' \<and>
   snd (process_uploaded_audio letter_streamer ramp_waveform)
     = Inr [(0, ''A''), (1 / 8000, ''C''), (1 / 4000, ''E'')] \<and>
   uploaded_offsets letter_streamer ramp_waveform = Inr [0, 2, 4] \<and>
   list_all2 (uploaded_result letter_streamer ramp_waveform) [0, 2, 4]
     [(0, ''A''), (1 / 8000, ''C''), (1 / 4000, ''E'')]"
proof -
  let ?results = "[(0, ''A''), (1 / 8000, ''C''), (1 / 4000, ''E'')] :: (rat \<times> string) list"
  note main = worker_publishes_text_only [of letter_streamer ramp_waveform ?results]
  have offs: "realtime_offsets letter_streamer ramp_waveform = Inr [0, 2, 4]" by code_simp
  have flag: "is_streaming letter_streamer" by code_simp
  have ok: "snd (simulate_realtime_processing letter_streamer ramp_waveform) = None" by code_simp
  have texts: "map (texts_at letter_streamer ramp_waveform) [0, 2, 4] = [[''A''], [''C''], [''E'']]"
    by code_simp
  from main offs flag ok
  have "result_queue (fst (simulate_realtime_processing letter_streamer ramp_waveform))
     = result_queue letter_streamer @
       map Str (concat (map (texts_at letter_streamer ramp_waveform) [0, 2, 4]))"
    by auto
  moreover have "result_queue letter_streamer = []" by code_simp
  ultimately have q: "result_queue (fst (simulate_realtime_processing letter_streamer ramp_waveform))
     = [Str ''A'', Str ''C'', Str ''E'']"
    using texts by simp
  have "''C'' \<in> set (texts_at letter_streamer ramp_waveform 2)" by code_simp
  with main
  have c: "snd (process_audio_chunk letter_streamer
             (py_slice ramp_waveform 2 (2 + chunk_size letter_streamer))) = Inr ''C''"
    by blast
  have r: "snd (process_uploaded_audio letter_streamer ramp_waveform) = Inr ?results" by code_simp
  have o: "uploaded_offsets letter_streamer ramp_waveform = Inr [0, 2, 4]" by code_simp
  have l: "list_all2 (uploaded_result letter_streamer ramp_waveform) [0, 2, 4] ?results"
    by code_simp
  from offs flag ok texts q c r o l show ?thesis by blast
qed

text \<open>
  Claim C5 as stated fails: the worker publishes the string \<^verbatim>\<open>HHI\<close>, which is not
  a pair of a timestamp and a text.
\<close>

theorem worker_result_counterexample:
  "result_queue (fst (simulate_realtime_processing live_streamer [1, 1, 1, 1, 1])) = [Str ''HHI''] \<and>
   \<not> is_TranscriptionResult (Str ''HHI'')"
  by code_simp

text \<open>
  Claim C8: when the overlap is smaller than the chunk, the offsets of the worker loop
  increase strictly and, under every schedule of worker steps, polls and stops, what the
  consumer has received followed by what is still queued is a prefix of the initial queue
  followed by the publications of the offsets in increasing order. When the sample rate
  is positive, the timestamps of the list returned by \<^verbatim>\<open>process_uploaded_audio\<close>
  increase strictly. The offsets of the generator \<^verbatim>\<open>process_from_microphone_data\<close>
  increase strictly, and the texts it yields are the texts of the windows at the first
  offsets of its loop, in that order, and of all of them when nothing is raised.
\<close>

theorem results_in_window_order:
  "(overlap_size s < chunk_size s \<and> PyNone \<notin> set (result_queue s) \<longrightarrow>
      (\<exists>offsets. realtime_offsets s waveform = Inr offsets \<and> sorted_wrt (<) offsets \<and>
         prefix (received (run waveform acts (simulate_streaming_from_file s)) @
                   result_queue (streamer (run waveform acts (simulate_streaming_from_file s))))
                (result_queue s @ concat (map (published_by s waveform) offsets)))) \<and>
   (0 < sample_rate s \<and> snd (process_uploaded_audio s waveform) = Inr results \<longrightarrow>
      sorted_wrt (<) (map fst results)) \<and>
   (case microphone_offsets s waveform of
      Inl e \<Rightarrow> fst (snd (process_from_microphone_data s waveform)) = []
    | Inr offsets \<Rightarrow>
        sorted_wrt (<) offsets \<and>
        (\<exists>k \<le> length offsets.
           fst (snd (process_from_microphone_data s waveform))
             = concat (map (texts_at s waveform) (take k offsets)) \<and>
           (snd (snd (process_from_microphone_data s waveform)) = None
              \<longrightarrow> k = length offsets)))"
proof (intro conjI impI)
  assume a: "overlap_size s < chunk_size s \<and> PyNone \<notin> set (result_queue s)"
  let ?offsets = "range_up 0 (int (length waveform) - chunk_size s) (chunk_size s - overlap_size s)"
  have offs: "realtime_offsets s waveform = Inr ?offsets"
    using a by (simp add: realtime_offsets_def py_range_def)
  have "worker_invariant s waveform ?offsets (result_queue s) (simulate_streaming_from_file s)"
    using a by (simp add: invariant_start)
  then have "worker_invariant s waveform ?offsets (result_queue s)
               (run waveform acts (simulate_streaming_from_file s))"
    by (rule invariant_run [OF offs])
  then have "prefix (received (run waveform acts (simulate_streaming_from_file s)) @
                   result_queue (streamer (run waveform acts (simulate_streaming_from_file s))))
                (result_queue s @ concat (map (published_by s waveform) ?offsets))"
    by (rule invariant_prefix)
  with offs range_up_sorted
  show "\<exists>offsets. realtime_offsets s waveform = Inr offsets \<and> sorted_wrt (<) offsets \<and>
         prefix (received (run waveform acts (simulate_streaming_from_file s)) @
                   result_queue (streamer (run waveform acts (simulate_streaming_from_file s))))
                (result_queue s @ concat (map (published_by s waveform) offsets))"
    by blast
next
  assume b: "0 < sample_rate s \<and> snd (process_uploaded_audio s waveform) = Inr results"
  then obtain offsets "is" where
    o: "uploaded_offsets s waveform = Inr offsets" and sub: "subseq is offsets"
    and l: "list_all2 (uploaded_result s waveform) is results"
    using process_uploaded_audio_results [of s waveform results] by blast
  have "sorted_wrt (<) offsets" using o by (rule uploaded_offsets_sorted)
  with sub have "sorted_wrt (<) is" by (rule subseq_sorted_wrt)
  with b l show "sorted_wrt (<) (map fst results)"
    using uploaded_timestamps_sorted [of s "is" waveform results] by blast
next
  show "case microphone_offsets s waveform of
      Inl e \<Rightarrow> fst (snd (process_from_microphone_data s waveform)) = []
    | Inr offsets \<Rightarrow>
        sorted_wrt (<) offsets \<and>
        (\<exists>k \<le> length offsets.
           fst (snd (process_from_microphone_data s waveform))
             = concat (map (texts_at s waveform) (take k offsets)) \<and>
           (snd (snd (process_from_microphone_data s waveform)) = None
              \<longrightarrow> k = length offsets))"
    by (rule process_from_microphone_data_exact)
qed

text \<open>
  The consumer observes \<^verbatim>\<open>A\<close>, \<^verbatim>\<open>C\<close>, an empty poll, then \<^verbatim>\<open>E\<close>: the
  order of the offsets 0, 2, 4, which is also the order of the batch list and of the
  generator.
\<close>

theorem results_in_window_order_witness:
  "overlap_size letter_streamer < chunk_size letter_streamer \<and>
   PyNone \<notin> set (result_queue letter_streamer) \<and>
   realtime_offsets letter_streamer ramp_waveform = Inr [0, 2, 4] \<and>
   concat (map (published_by letter_streamer ramp_waveform) [0, 2, 4])
     = [Str ''A'', Str ''C'', Str ''E''] \<and>
   observed (run ramp_waveform demo_schedule (simulate_streaming_from_file letter_streamer))
     = [Str ''A'', Str ''C'', PyNone, Str ''E''] \<and>
   0 < sample_rate letter_streamer \<and>
   snd (process_uploaded_audio letter_streamer ramp_waveform)
     = Inr [(0, ''A''), (1 / 8000, ''C''), (1 / 4000, ''E'')] \<and>
   sorted_wrt (<) (map fst [(0 :: rat, ''A''), (1 / 8000, ''C''), (1 / 4000, ''E'')]) \<and>
   microphone_offsets letter_streamer ramp_waveform = Inr [0, 2, 4] \<and>
   snd (snd (process_from_microphone_data letter_streamer ramp_waveform)) = None \<and>
   fst (snd (process_from_microphone_data letter_streamer ramp_waveform)) = [''A'', ''C'', ''E''] \<and>
   concat (map (texts_at letter_streamer ramp_waveform) [0, 2, 4]) = [''A'', ''C'', ''E'']"
proof -
  let ?results = "[(0, ''A''), (1 / 8000, ''C''), (1 / 4000, ''E'')] :: (rat \<times> string) list"
  have h1: "overlap_size letter_streamer < chunk_size letter_streamer \<and>
            PyNone \<notin> set (result_queue letter_streamer)" by code_simp
  have h2: "0 < sample_rate letter_streamer" by code_simp
  have r: "snd (process_uploaded_audio letter_streamer ramp_waveform) = Inr ?results" by code_simp
  have o: "realtime_offsets letter_streamer ramp_waveform = Inr [0, 2, 4]" by code_simp
  have p: "concat (map (published_by letter_streamer ramp_waveform) [0, 2, 4])
     = [Str ''A'', Str ''C'', Str ''E'']" by code_simp
  have ob: "observed (run ramp_waveform demo_schedule (simulate_streaming_from_file letter_streamer))
     = [Str ''A'', Str ''C'', PyNone, Str ''E'']" by code_simp
  from results_in_window_order [of letter_streamer ramp_waveform demo_schedule ?results] h2 r
  have s: "sorted_wrt (<) (map fst ?results)" by blast
  have y: "fst (snd (process_from_microphone_data letter_streamer ramp_waveform)) = [''A'', ''C'', ''E'']"
    by code_simp
  have m: "microphone_offsets letter_streamer ramp_waveform = Inr [0, 2, 4]" by code_simp
  have n: "snd (snd (process_from_microphone_data letter_streamer ramp_waveform)) = None"
    by code_simp
  have t: "concat (map (texts_at letter_streamer ramp_waveform) [0, 2, 4]) = [''A'', ''C'', ''E'']"
    by code_simp
  from h1 h2 r o p ob s y m n t show ?thesis by blast
qed

text \<open>
  Claim C9: on an empty queue \<^verbatim>\<open>get_latest_transcription\<close> returns \<^verbatim>\<open>None\<close>
  and changes nothing; on a queue that is not empty it returns the first result and
  removes it. It has no other outcome.
\<close>

theorem poll_latest_nonblocking:
  "get_latest_transcription (s\<lparr>result_queue := []\<rparr>) = (PyNone, s\<lparr>result_queue := []\<rparr>) \<and>
   get_latest_transcription (s\<lparr>result_queue := item # rest\<rparr>) = (item, s\<lparr>result_queue := rest\<rparr>)"
  by (simp add: get_latest_transcription_def)

section \<open>Claims about stopping\<close>

text \<open>
  Claim C7: once \<^verbatim>\<open>stop_streaming\<close> has lowered the flag, whatever the schedule that
  follows, the model is invoked at most once more, and not at all unless the worker was
  inside the body of an iteration; a worker at the head of its loop exits at its next
  step; after two worker steps the worker has exited; and the flag stays lowered.
\<close>

theorem stop_is_cooperative:
  assumes "sys' = run waveform acts (step waveform StopStreaming sys)"
  shows "length (model_calls (streamer sys')) \<le> length (model_calls (streamer sys)) + 1 \<and>
         ((\<forall>i. worker_pc sys \<noteq> InBody i) \<longrightarrow>
            model_calls (streamer sys') = model_calls (streamer sys)) \<and>
         (worker_pc sys = AtLoopHead \<longrightarrow>
            worker_pc (step waveform WorkerStep (step waveform StopStreaming sys)) = Finished) \<and>
         (2 \<le> count_list acts WorkerStep \<longrightarrow> exited (worker_pc sys')) \<and>
         \<not> is_streaming (streamer sys')"
proof -
  let ?st = "step waveform StopStreaming sys"
  have down: "\<not> is_streaming (streamer ?st)" by (simp add: stop_streaming_def)
  have pc: "worker_pc ?st = worker_pc sys" by simp
  have calls: "model_calls (streamer ?st) = model_calls (streamer sys)"
    by (simp add: stop_streaming_def)
  note bound = run_stopped_calls [OF down, of waveform acts]
  have "(case worker_pc sys of InBody i \<Rightarrow> 1 | _ \<Rightarrow> 0) \<le> (1::nat)"
    by (cases "worker_pc sys") simp_all
  with bound have c1: "length (model_calls (streamer sys')) \<le> length (model_calls (streamer sys)) + 1"
    unfolding assms pc calls by linarith
  from bound have c2: "(\<forall>i. worker_pc sys \<noteq> InBody i) \<longrightarrow>
            model_calls (streamer sys') = model_calls (streamer sys)"
    unfolding assms pc calls by blast
  have c3: "worker_pc sys = AtLoopHead \<longrightarrow> worker_pc (step waveform WorkerStep ?st) = Finished"
    using worker_step_stopped_exit [OF down, of waveform] pc by simp
  have c4: "2 \<le> count_list acts WorkerStep \<longrightarrow> exited (worker_pc sys')"
    using run_stopped_exit [OF down, of waveform acts] unfolding assms by blast
  have c5: "\<not> is_streaming (streamer sys')"
    unfolding assms using down by (rule run_flag_down)
  from c1 c2 c3 c4 c5 show ?thesis by blast
qed

text \<open>
  A stop that arrives while the worker is in the body of the first iteration lets that
  one window through; a stop that arrives at the loop head lets none through.
\<close>

theorem stop_is_cooperative_witness:
  "worker_pc (run loud_waveform [WorkerStep, WorkerStep] (simulate_streaming_from_file demo_streamer))
     = InBody 0 \<and>
   model_calls (streamer (run loud_waveform [WorkerStep, WorkerStep, StopStreaming,
       WorkerStep, WorkerStep, WorkerStep] (simulate_streaming_from_file demo_streamer)))
     = [[1, 1, 1, 1]] \<and>
   exited (worker_pc (run loud_waveform [WorkerStep, WorkerStep, StopStreaming,
       WorkerStep, WorkerStep, WorkerStep] (simulate_streaming_from_file demo_streamer))) \<and>
   worker_pc (run loud_waveform [WorkerStep] (simulate_streaming_from_file demo_streamer))
     = AtLoopHead \<and>
   model_calls (streamer (run loud_waveform [WorkerStep, StopStreaming,
       WorkerStep, WorkerStep, WorkerStep] (simulate_streaming_from_file demo_streamer)))
     = [] \<and>
   worker_pc (run loud_waveform [WorkerStep, StopStreaming, WorkerStep]
       (simulate_streaming_from_file demo_streamer)) = Finished"
proof -
  let ?start = "simulate_streaming_from_file demo_streamer"
  let ?body = "run loud_waveform [WorkerStep, WorkerStep] ?start"
  let ?head = "run loud_waveform [WorkerStep] ?start"
  let ?acts = "[WorkerStep, WorkerStep, WorkerStep]"
  have pc_body: "worker_pc ?body = InBody 0" by code_simp
  have pc_head: "worker_pc ?head = AtLoopHead" by code_simp
  have calls_body: "model_calls (streamer ?body) = []" by code_simp
  have calls_head: "model_calls (streamer ?head) = []" by code_simp
  have count: "2 \<le> count_list ?acts WorkerStep" by simp
  have one: "model_calls (streamer (run loud_waveform ?acts (step loud_waveform StopStreaming ?body)))
               = [[1, 1, 1, 1]]" by code_simp
  from stop_is_cooperative [OF refl, of loud_waveform ?acts ?body] count
  have exit_body: "exited (worker_pc (run loud_waveform ?acts (step loud_waveform StopStreaming ?body)))"
    by blast
  from stop_is_cooperative [OF refl, of loud_waveform ?acts ?head] pc_head calls_head
  have none: "model_calls (streamer (run loud_waveform ?acts (step loud_waveform StopStreaming ?head))) = []"
    and fin: "worker_pc (step loud_waveform WorkerStep (step loud_waveform StopStreaming ?head)) = Finished"
    by simp_all
  from pc_body one exit_body pc_head none fin show ?thesis by simp
qed

end
